theory Spec2Isabelle
  imports Main "HOL-Library.Word"
begin

unbundle bit_operations_syntax

section \<open>The generator (MersenneTwister, \<^verbatim>\<open>MyRandom\<close>)\<close>

text \<open>
  \<^verbatim>\<open>unsigned int\<close> is a 32-bit word: \<open>+\<close>, \<open>*\<close> wrap, \<open>>>\<close> is \<open>drop_bit\<close>,
  \<open><<\<close> is \<open>push_bit\<close>. An \<^verbatim>\<open>int\<close> array element is kept as its 32-bit pattern
  (the conversion \<^verbatim>\<open>unsigned int\<close> to \<^verbatim>\<open>int\<close> keeps the bits) and is read as a
  signed number where the code compares it as one.
\<close>

type_synonym u32 = "32 word"
type_synonym s32 = "32 word"

definition MT_IA :: int where "MT_IA = 397"
definition MT_LEN :: int where "MT_LEN = 624"

text \<open>
  \<^verbatim>\<open>struct MersenneTwister { unsigned int m_buffer[MT_LEN]; int m_index; }\<close>.
  The array is a list; that it has \<open>MT_LEN\<close> elements is the predicate \<open>buffer_ok\<close>, and
  that the cursor points into it is \<open>index_ok\<close>. An access outside an array is undefined in
  C and has no meaning here either (\<open>xs ! i\<close> is unspecified there): the statements about
  \<^verbatim>\<open>nextInt\<close> are made under \<open>index_ok\<close> and \<open>buffer_ok\<close>, which hold of every generator the
  program makes.
\<close>

record MyRandom =
  m_buffer :: "u32 list"
  m_index :: int

definition buffer_ok :: "MyRandom \<Rightarrow> bool" where
  "buffer_ok myRandom \<longleftrightarrow> int (length (m_buffer myRandom)) = MT_LEN"

definition index_ok :: "MyRandom \<Rightarrow> bool" where
  "index_ok myRandom \<longleftrightarrow> 0 \<le> m_index myRandom \<and> m_index myRandom < MT_LEN"

text \<open>The locals \<^verbatim>\<open>i2\<close> and \<^verbatim>\<open>j\<close> of \<^verbatim>\<open>nextInt\<close>, each with its wrap-around.\<close>

definition nextInt_i2 :: "MyRandom \<Rightarrow> int" where
  "nextInt_i2 myRandom =
     (let i2 = m_index myRandom + 1 in if i2 \<ge> MT_LEN then 0 else i2)"

definition nextInt_j :: "MyRandom \<Rightarrow> int" where
  "nextInt_j myRandom =
     (let j = m_index myRandom + MT_IA in if j \<ge> MT_LEN then j - MT_LEN else j)"

text \<open>The twist: \<^verbatim>\<open>s\<close> and the raw value \<^verbatim>\<open>r\<close> that is stored back.\<close>

definition twist_s :: "MyRandom \<Rightarrow> u32" where
  "twist_s myRandom =
     (m_buffer myRandom ! nat (m_index myRandom) AND 0x80000000) OR
     (m_buffer myRandom ! nat (nextInt_i2 myRandom) AND 0x7fffffff)"

definition twist_r :: "MyRandom \<Rightarrow> u32" where
  "twist_r myRandom =
     (let s = twist_s myRandom
      in m_buffer myRandom ! nat (nextInt_j myRandom) XOR drop_bit 1 s XOR ((s AND 1) * 0x9908B0DF))"

text \<open>The swizzle: the four \<^verbatim>\<open>r ^= ...\<close> assignments, in the order of the source.\<close>

definition swizzle :: "u32 \<Rightarrow> u32" where
  "swizzle r0 =
     (let r1 = r0 XOR drop_bit 11 r0;
          r2 = r1 XOR (push_bit 7 r1 AND 0x9d2c5680);
          r3 = r2 XOR (push_bit 15 r2 AND 0xefc60000);
          r4 = r3 XOR drop_bit 18 r3
      in r4)"

definition nextInt :: "MyRandom \<Rightarrow> u32 \<times> MyRandom" where
  "nextInt myRandom =
     (let i2 = nextInt_i2 myRandom;
          r = twist_r myRandom;
          myRandom1 = myRandom\<lparr>m_buffer := (m_buffer myRandom)[nat (m_index myRandom) := r]\<rparr>;
          myRandom2 = myRandom1\<lparr>m_index := i2\<rparr>
      in (swizzle r, myRandom2))"

text \<open>
  \<^verbatim>\<open>initMyRandom\<close>: the local \<^verbatim>\<open>newRandom\<close> is not initialised when it is declared,
  so the body is modelled on whatever the local holds at that point (the first
  argument of \<open>initMyRandom_on\<close>). The first loop fills the buffer, the second one
  calls \<^verbatim>\<open>nextInt\<close> \<open>MT_LEN * 100\<close> times and drops the results.
\<close>

function initMyRandom_fill :: "int \<Rightarrow> u32 \<Rightarrow> MyRandom \<Rightarrow> MyRandom" where
  "initMyRandom_fill i seed newRandom =
     (if i < MT_LEN
      then initMyRandom_fill (i + 1) seed
             (newRandom\<lparr>m_buffer := (m_buffer newRandom)[nat i := seed]\<rparr>)
      else newRandom)"
  by pat_completeness auto
termination
  by (relation "measure (\<lambda>(i, seed, newRandom). nat (MT_LEN - i))") auto

declare initMyRandom_fill.simps [simp del]

function initMyRandom_shuffle :: "int \<Rightarrow> MyRandom \<Rightarrow> MyRandom" where
  "initMyRandom_shuffle i newRandom =
     (if i < MT_LEN * 100
      then initMyRandom_shuffle (i + 1) (snd (nextInt newRandom))
      else newRandom)"
  by pat_completeness auto
termination
  by (relation "measure (\<lambda>(i, newRandom). nat (MT_LEN * 100 - i))") auto

declare initMyRandom_shuffle.simps [simp del]

definition initMyRandom_on :: "MyRandom \<Rightarrow> u32 \<Rightarrow> MyRandom" where
  "initMyRandom_on newRandom seed =
     (let newRandom1 = initMyRandom_fill 0 seed newRandom;
          newRandom2 = newRandom1\<lparr>m_index := 0\<rparr>
      in initMyRandom_shuffle 0 newRandom2)"

text \<open>
  The function as its callers see it. The contents of the fresh local are fixed to zeros
  here; \<open>initMyRandom_on\<close> does not depend on them (lemma \<open>initMyRandom_on_any\<close>).
\<close>

definition initMyRandom :: "u32 \<Rightarrow> MyRandom" where
  "initMyRandom seed =
     initMyRandom_on \<lparr>m_buffer = replicate (nat MT_LEN) 0, m_index = 0\<rparr> seed"

text \<open>
  The first \<open>n\<close> results of successive \<^verbatim>\<open>nextInt\<close> calls on one generator, and the
  generator after them.
\<close>

fun draws :: "nat \<Rightarrow> MyRandom \<Rightarrow> u32 list" where
  "draws 0 myRandom = []"
| "draws (Suc n) myRandom = fst (nextInt myRandom) # draws n (snd (nextInt myRandom))"

fun after_draws :: "nat \<Rightarrow> MyRandom \<Rightarrow> MyRandom" where
  "after_draws 0 myRandom = myRandom"
| "after_draws (Suc n) myRandom = after_draws n (snd (nextInt myRandom))"

section \<open>The shared array and the bookkeeping\<close>

definition TEST_ITERS :: nat where "TEST_ITERS = 1000"
definition MAIN_RANDOM_START_SEED :: int where "MAIN_RANDOM_START_SEED = 65"
definition READ_RANDOM_START_SEED :: int where "READ_RANDOM_START_SEED = 6565"
definition WRITE_RANDOM_START_SEED :: int where "WRITE_RANDOM_START_SEED = 651"

definition VALS_SIZE :: nat where "VALS_SIZE = 100000"
definition READER_ITERS :: nat where "READER_ITERS = 50000"
definition WRITER_ITERS :: nat where "WRITER_ITERS = 50000"
definition CHECK_EACH_ITER :: nat where "CHECK_EACH_ITER = 50"
definition CHECK_FIRST_VALS :: nat where "CHECK_FIRST_VALS = VALS_SIZE"

text \<open>
  The globals of the program, and what it has written to standard error. Each array has
  \<open>VALS_SIZE\<close> elements (\<open>arrays_ok\<close>). The counters are \<^verbatim>\<open>int\<close>: \<^verbatim>\<open>++\<close> is \<open>+ 1\<close> on the
  32-bit pattern and \<^verbatim>\<open>> 1\<close> is the signed comparison \<open>1 <s c\<close>.
\<close>

record globals =
  vals :: "s32 list"
  lastValsScan :: "s32 list"
  changedTimes :: "s32 list"
  wasRead :: "bool list"
  wasWritten :: "bool list"
  savedRead :: s32
  stderr_text :: string

definition arrays_ok :: "globals \<Rightarrow> bool" where
  "arrays_ok g \<longleftrightarrow>
     length (vals g) = VALS_SIZE \<and> length (lastValsScan g) = VALS_SIZE \<and>
     length (changedTimes g) = VALS_SIZE \<and> length (wasRead g) = VALS_SIZE \<and>
     length (wasWritten g) = VALS_SIZE"

definition fprintf_stderr :: "string \<Rightarrow> globals \<Rightarrow> globals" where
  "fprintf_stderr msg g = g\<lparr>stderr_text := stderr_text g @ msg\<rparr>"

text \<open>A call either returns, or ends the process through \<^verbatim>\<open>exit(code)\<close>.\<close>

datatype 'a outcome = Returns 'a | Exits int globals

definition getRandomIndex :: "MyRandom \<Rightarrow> u32 \<times> MyRandom" where
  "getRandomIndex myRandom =
     (let (r, myRandom1) = nextInt myRandom in (r mod of_nat VALS_SIZE, myRandom1))"

function clearState_loop :: "nat \<Rightarrow> MyRandom \<Rightarrow> globals \<Rightarrow> globals" where
  "clearState_loop i mainRandom g =
     (if i < VALS_SIZE
      then (let (r, mainRandom1) = nextInt mainRandom
            in clearState_loop (i + 1) mainRandom1 (g\<lparr>vals := (vals g)[i := r]\<rparr>))
      else g)"
  by pat_completeness auto
termination
  by (relation "measure (\<lambda>(i, mainRandom, g). VALS_SIZE - i)") auto

declare clearState_loop.simps [simp del]

definition clearState :: "int \<Rightarrow> globals \<Rightarrow> globals" where
  "clearState iter g =
     (let mainRandom = initMyRandom (of_int (MAIN_RANDOM_START_SEED + iter))
      in clearState_loop 0 mainRandom g)"

definition UB_message :: string where
  "UB_message = [CHR 0x0A] @ ''UB was caught!'' @ [CHR 0x0A]"

function checkVals_loop :: "nat \<Rightarrow> globals \<Rightarrow> globals outcome" where
  "checkVals_loop i g =
     (if i < CHECK_FIRST_VALS
      then (let v = vals g ! i in
            if v \<noteq> lastValsScan g ! i
            then (let g1 = g\<lparr>changedTimes := (changedTimes g)[i := changedTimes g ! i + 1]\<rparr> in
                  if 1 <s changedTimes g1 ! i
                  then Exits 0 (fprintf_stderr UB_message g1)
                  else checkVals_loop (i + 1) (g1\<lparr>lastValsScan := (lastValsScan g1)[i := v]\<rparr>))
            else checkVals_loop (i + 1) g)
      else Returns g)"
  by pat_completeness auto
termination
  by (relation "measure (\<lambda>(i, g). CHECK_FIRST_VALS - i)") auto

declare checkVals_loop.simps [simp del]

definition checkVals :: "globals \<Rightarrow> globals outcome" where
  "checkVals g = checkVals_loop 0 g"

section \<open>The reader and the writer\<close>

text \<open>
  \<^verbatim>\<open>doReads\<close> and \<^verbatim>\<open>doWrites\<close> are the bodies of two threads. Each is modelled as a function
  on the globals: what the task does when nothing else writes the globals meanwhile. The
  threads, the semaphores and the processor affinity of \<^verbatim>\<open>test\<close> are outside the model.
\<close>

text \<open>
  \<^verbatim>\<open>while (touched[index]) index = getRandomIndex(&random);\<close> is the loop of both
  \<^verbatim>\<open>doReads\<close> (on \<^verbatim>\<open>wasRead\<close>, \<^verbatim>\<open>readRandom\<close>) and \<^verbatim>\<open>doWrites\<close> (on \<^verbatim>\<open>wasWritten\<close>,
  \<^verbatim>\<open>writeRandom\<close>). It need not end: \<open>None\<close> is the loop that runs forever.
\<close>

partial_function (option) resample_while :: "bool list \<Rightarrow> MyRandom \<Rightarrow> u32 \<Rightarrow> (u32 \<times> MyRandom) option" where
  "resample_while touched random index =
     (if touched ! unat index
      then resample_while touched (snd (getRandomIndex random)) (fst (getRandomIndex random))
      else Some (index, random))"

text \<open>
  \<^verbatim>\<open>doReads\<close>, first part (``prepare and wait''). \<^verbatim>\<open>sem_wait\<close> and \<^verbatim>\<open>usleep\<close> change
  nothing of the state that is modelled.
\<close>

function doReads_prepare_loop :: "nat \<Rightarrow> globals \<Rightarrow> globals" where
  "doReads_prepare_loop i g =
     (if i < VALS_SIZE
      then doReads_prepare_loop (i + 1)
             (g\<lparr>wasRead := (wasRead g)[i := False],
                lastValsScan := (lastValsScan g)[i := vals g ! i],
                changedTimes := (changedTimes g)[i := 0]\<rparr>)
      else g)"
  by pat_completeness auto
termination
  by (relation "measure (\<lambda>(i, g). VALS_SIZE - i)") auto

declare doReads_prepare_loop.simps [simp del]

definition doReads_prepare :: "int \<Rightarrow> globals \<Rightarrow> MyRandom \<times> globals" where
  "doReads_prepare iter g =
     (let g1 = doReads_prepare_loop 0 g;
          g2 = g1\<lparr>savedRead := 0\<rparr>;
          readRandom = initMyRandom (of_int (READ_RANDOM_START_SEED + iter))
      in (readRandom, g2))"

text \<open>
  The second part (``act''): \<open>doReads_body\<close> is the body of the \<^verbatim>\<open>for\<close> loop at counter
  \<open>i\<close>, and the loop has its bound as the argument \<open>n\<close>: the source runs it with
  \<open>n = READER_ITERS\<close>. The sum that goes to \<^verbatim>\<open>savedRead\<close> wraps at 32 bits.
\<close>

definition doReads_body :: "nat \<Rightarrow> MyRandom \<Rightarrow> globals \<Rightarrow> (MyRandom \<times> globals) outcome option" where
  "doReads_body i readRandom g =
     (case resample_while (wasRead g) (snd (getRandomIndex readRandom))
             (fst (getRandomIndex readRandom)) of
        None \<Rightarrow> None
      | Some (readIndex, readRandom1) \<Rightarrow>
          (let g1 = g\<lparr>wasRead := (wasRead g)[unat readIndex := True]\<rparr>;
               read = vals g1 ! unat readIndex;
               g2 = g1\<lparr>savedRead := (read + read - 1) + (savedRead g1 - 1 + read) * read\<rparr>
           in case (if i mod CHECK_EACH_ITER = 0 then checkVals g2 else Returns g2) of
                Exits code g3 \<Rightarrow> Some (Exits code g3)
              | Returns g3 \<Rightarrow> Some (Returns (readRandom1, g3))))"

function doReads_loop :: "nat \<Rightarrow> nat \<Rightarrow> MyRandom \<Rightarrow> globals \<Rightarrow> globals outcome option" where
  "doReads_loop n i readRandom g =
     (if i < n
      then (case doReads_body i readRandom g of
              None \<Rightarrow> None
            | Some (Exits code g1) \<Rightarrow> Some (Exits code g1)
            | Some (Returns (readRandom1, g1)) \<Rightarrow> doReads_loop n (i + 1) readRandom1 g1)
      else Some (Returns g))"
  by pat_completeness auto
termination
  by (relation "measure (\<lambda>(n, i, readRandom, g). n - i)") auto

declare doReads_loop.simps [simp del]

definition Reader_message :: string where
  "Reader_message = ''Reader has finished'' @ [CHR 0x0A]"

definition doReads_n :: "nat \<Rightarrow> int \<Rightarrow> globals \<Rightarrow> globals outcome option" where
  "doReads_n n iter g =
     (let (readRandom, g1) = doReads_prepare iter g
      in case doReads_loop n 0 readRandom g1 of
           None \<Rightarrow> None
         | Some (Exits code g2) \<Rightarrow> Some (Exits code g2)
         | Some (Returns g2) \<Rightarrow> Some (Returns (fprintf_stderr Reader_message g2)))"

definition doReads :: "int \<Rightarrow> globals \<Rightarrow> globals outcome option" where
  "doReads iter g = doReads_n READER_ITERS iter g"

text \<open>\<^verbatim>\<open>doWrites\<close>, in the same two parts; the source runs the loop with \<open>n = WRITER_ITERS\<close>.\<close>

function doWrites_prepare_loop :: "nat \<Rightarrow> globals \<Rightarrow> globals" where
  "doWrites_prepare_loop i g =
     (if i < VALS_SIZE
      then doWrites_prepare_loop (i + 1) (g\<lparr>wasWritten := (wasWritten g)[i := False]\<rparr>)
      else g)"
  by pat_completeness auto
termination
  by (relation "measure (\<lambda>(i, g). VALS_SIZE - i)") auto

declare doWrites_prepare_loop.simps [simp del]

definition doWrites_prepare :: "int \<Rightarrow> globals \<Rightarrow> MyRandom \<times> globals" where
  "doWrites_prepare iter g =
     (let g1 = doWrites_prepare_loop 0 g;
          writeRandom = initMyRandom (of_int (WRITE_RANDOM_START_SEED + iter))
      in (writeRandom, g1))"

definition doWrites_body :: "MyRandom \<Rightarrow> globals \<Rightarrow> (MyRandom \<times> globals) option" where
  "doWrites_body writeRandom g =
     (case resample_while (wasWritten g) (snd (getRandomIndex writeRandom))
             (fst (getRandomIndex writeRandom)) of
        None \<Rightarrow> None
      | Some (writeIndex, writeRandom1) \<Rightarrow>
          (let g1 = g\<lparr>wasWritten := (wasWritten g)[unat writeIndex := True]\<rparr>;
               (r, writeRandom2) = nextInt writeRandom1;
               g2 = g1\<lparr>vals := (vals g1)[unat writeIndex := r]\<rparr>
           in Some (writeRandom2, g2)))"

function doWrites_loop :: "nat \<Rightarrow> nat \<Rightarrow> MyRandom \<Rightarrow> globals \<Rightarrow> globals option" where
  "doWrites_loop n i writeRandom g =
     (if i < n
      then (case doWrites_body writeRandom g of
              None \<Rightarrow> None
            | Some (writeRandom1, g1) \<Rightarrow> doWrites_loop n (i + 1) writeRandom1 g1)
      else Some g)"
  by pat_completeness auto
termination
  by (relation "measure (\<lambda>(n, i, writeRandom, g). n - i)") auto

declare doWrites_loop.simps [simp del]

definition Writer_message :: string where
  "Writer_message = ''Writer has finished'' @ [CHR 0x0A]"

definition doWrites_n :: "nat \<Rightarrow> int \<Rightarrow> globals \<Rightarrow> globals option" where
  "doWrites_n n iter g =
     (let (writeRandom, g1) = doWrites_prepare iter g
      in case doWrites_loop n 0 writeRandom g1 of
           None \<Rightarrow> None
         | Some g2 \<Rightarrow> Some (fprintf_stderr Writer_message g2))"

definition doWrites :: "int \<Rightarrow> globals \<Rightarrow> globals option" where
  "doWrites iter g = doWrites_n WRITER_ITERS iter g"

text \<open>
  The two tasks one after the other, the second one started when the first has returned.
\<close>

definition writer_then_reader :: "nat \<Rightarrow> nat \<Rightarrow> int \<Rightarrow> globals \<Rightarrow> globals outcome option" where
  "writer_then_reader m n iter g =
     (case doWrites_n m iter g of
        None \<Rightarrow> None
      | Some g1 \<Rightarrow> doReads_n n iter g1)"

definition reader_then_writer :: "nat \<Rightarrow> nat \<Rightarrow> int \<Rightarrow> globals \<Rightarrow> globals outcome option" where
  "reader_then_writer n m iter g =
     (case doReads_n n iter g of
        None \<Rightarrow> None
      | Some (Exits code g1) \<Rightarrow> Some (Exits code g1)
      | Some (Returns g1) \<Rightarrow> map_option Returns (doWrites_n m iter g1))"

text \<open>
  The two tasks as \<^verbatim>\<open>test\<close> starts them: both run their first part and wait on their start
  semaphore; here the second parts, each with the \<^verbatim>\<open>fprintf\<close> that ends it, then run one
  after the other instead of together.
\<close>

definition prepared_writer_then_reader :: "nat \<Rightarrow> nat \<Rightarrow> int \<Rightarrow> globals \<Rightarrow> globals outcome option" where
  "prepared_writer_then_reader m n iter g =
     (let (readRandom, g1) = doReads_prepare iter g;
          (writeRandom, g2) = doWrites_prepare iter g1
      in case doWrites_loop m 0 writeRandom g2 of
           None \<Rightarrow> None
         | Some g3 \<Rightarrow>
             (case doReads_loop n 0 readRandom (fprintf_stderr Writer_message g3) of
                None \<Rightarrow> None
              | Some (Exits code g4) \<Rightarrow> Some (Exits code g4)
              | Some (Returns g4) \<Rightarrow> Some (Returns (fprintf_stderr Reader_message g4))))"

definition prepared_reader_then_writer :: "nat \<Rightarrow> nat \<Rightarrow> int \<Rightarrow> globals \<Rightarrow> globals outcome option" where
  "prepared_reader_then_writer n m iter g =
     (let (readRandom, g1) = doReads_prepare iter g;
          (writeRandom, g2) = doWrites_prepare iter g1
      in case doReads_loop n 0 readRandom g2 of
           None \<Rightarrow> None
         | Some (Exits code g3) \<Rightarrow> Some (Exits code g3)
         | Some (Returns g3) \<Rightarrow>
             (case doWrites_loop m 0 writeRandom (fprintf_stderr Reader_message g3) of
                None \<Rightarrow> None
              | Some g4 \<Rightarrow> Some (Returns (fprintf_stderr Writer_message g4))))"

section \<open>Vocabulary of the statements\<close>

text \<open>
  Slot \<open>i\<close> differs from its snapshot; and it differs while its counter, once incremented,
  is over 1 (the signed comparison of the source, on the 32-bit counter).
\<close>

definition slot_changed :: "globals \<Rightarrow> nat \<Rightarrow> bool" where
  "slot_changed g i \<longleftrightarrow> vals g ! i \<noteq> lastValsScan g ! i"

definition slot_fatal :: "globals \<Rightarrow> nat \<Rightarrow> bool" where
  "slot_fatal g i \<longleftrightarrow> slot_changed g i \<and> 1 <s changedTimes g ! i + 1"

text \<open>
  \<open>scan_slots lo hi g\<close> is \<open>g\<close> after the slots \<open>lo \<le> j < hi\<close> were compared and none of
  them was fatal: their snapshots are the current values, their counters are incremented
  where the value differed, and nothing else has changed. \<open>count_change k g\<close> is \<open>g\<close> with
  the counter of slot \<open>k\<close> incremented.
\<close>

definition scan_slots :: "nat \<Rightarrow> nat \<Rightarrow> globals \<Rightarrow> globals" where
  "scan_slots lo hi g =
     g\<lparr>lastValsScan :=
         map (\<lambda>j. if lo \<le> j \<and> j < hi then vals g ! j else lastValsScan g ! j)
           [0..<length (lastValsScan g)],
       changedTimes :=
         map (\<lambda>j. if lo \<le> j \<and> j < hi \<and> slot_changed g j then changedTimes g ! j + 1
                  else changedTimes g ! j)
           [0..<length (changedTimes g)]\<rparr>"

definition count_change :: "nat \<Rightarrow> globals \<Rightarrow> globals" where
  "count_change k g = g\<lparr>changedTimes := (changedTimes g)[k := changedTimes g ! k + 1]\<rparr>"

text \<open>The globals as the program starts (static storage is zero), and a state in which
  slot 0 has already changed once and differs again.\<close>

definition initial_globals :: globals where
  "initial_globals =
     \<lparr>vals = replicate VALS_SIZE 0, lastValsScan = replicate VALS_SIZE 0,
      changedTimes = replicate VALS_SIZE 0, wasRead = replicate VALS_SIZE False,
      wasWritten = replicate VALS_SIZE False, savedRead = 0, stderr_text = []\<rparr>"

definition revisited_globals :: globals where
  "revisited_globals =
     initial_globals\<lparr>vals := (vals initial_globals)[0 := 7],
                      changedTimes := (changedTimes initial_globals)[0 := 1]\<rparr>"

text \<open>Two generator states: the cursor on the last slot, and on the first, of a zero buffer.\<close>

definition last_slot_random :: MyRandom where
  "last_slot_random = \<lparr>m_buffer = replicate (nat MT_LEN) 0, m_index = 623\<rparr>"

definition zero_random :: MyRandom where
  "zero_random = \<lparr>m_buffer = replicate (nat MT_LEN) 0, m_index = 0\<rparr>"

text \<open>
  The next operation in the words of the specification, for comparison with \<open>nextInt\<close>:
  the twist of three slot values \<open>a\<close> (at the cursor), \<open>b\<close> (one after it) and \<open>c\<close> (397
  after it), the four tempering steps in their order, the write-back at the cursor, and the
  cursor advanced by one modulo 624.
\<close>

definition spec_twist :: "u32 \<Rightarrow> u32 \<Rightarrow> u32 \<Rightarrow> u32" where
  "spec_twist a b c =
     (let s = (a AND 0x80000000) OR (b AND 0x7fffffff)
      in c XOR drop_bit 1 s XOR (if bit s 0 then 0x9908B0DF else 0))"

definition spec_temper :: "u32 \<Rightarrow> u32" where
  "spec_temper =
     (\<lambda>y. y XOR drop_bit 18 y) \<circ> (\<lambda>y. y XOR (push_bit 15 y AND 0xefc60000)) \<circ>
     (\<lambda>y. y XOR (push_bit 7 y AND 0x9d2c5680)) \<circ> (\<lambda>y. y XOR drop_bit 11 y)"

definition spec_nextInt :: "MyRandom \<Rightarrow> u32 \<times> MyRandom" where
  "spec_nextInt g =
     (let c = m_index g;
          raw = spec_twist (m_buffer g ! nat c) (m_buffer g ! nat ((c + 1) mod 624))
                  (m_buffer g ! nat ((c + 397) mod 624))
      in (spec_temper raw, \<lparr>m_buffer = (m_buffer g)[nat c := raw], m_index = (c + 1) mod 624\<rparr>))"

text \<open>A state as a finished trial may leave it: bookkeeping of slot 0 is in use.\<close>

definition used_globals :: globals where
  "used_globals =
     initial_globals\<lparr>lastValsScan := (lastValsScan initial_globals)[0 := 9],
                      changedTimes := (changedTimes initial_globals)[0 := 1],
                      wasRead := (wasRead initial_globals)[0 := True],
                      wasWritten := (wasWritten initial_globals)[0 := True]\<rparr>"

text \<open>
  The index and the generator after \<open>j\<close> more rounds of the resampling loop, whatever the
  flags: round \<open>j\<close> holds the \<open>j\<close>-th candidate after the one the loop was entered with.
\<close>

fun resample_steps :: "nat \<Rightarrow> MyRandom \<Rightarrow> u32 \<Rightarrow> u32 \<times> MyRandom" where
  "resample_steps 0 random index = (index, random)"
| "resample_steps (Suc j) random index =
     resample_steps j (snd (getRandomIndex random)) (fst (getRandomIndex random))"

text \<open>
  A generator whose next four indices are 0, 0, 0 and 67295 (its words 399 to 402 temper
  to 100000, 100000, 100000 and \<open>2^32 - 1\<close>), and a state in which index 0 is marked for
  both tasks and slot 67295 holds 3.
\<close>

definition colliding_random :: MyRandom where
  "colliding_random =
     \<lparr>m_buffer = (replicate (nat MT_LEN) 0)
                   [399 := 0x57633ac7, 400 := 0x57633ac7, 401 := 0x57633ac7, 402 := 0x12dd9bb3],
      m_index = 2\<rparr>"

definition colliding_buffer :: "u32 list" where
  "colliding_buffer = m_buffer colliding_random"

definition marked_globals :: globals where
  "marked_globals =
     initial_globals\<lparr>vals := (vals initial_globals)[67295 := 3],
                      lastValsScan := (lastValsScan initial_globals)[67295 := 3],
                      wasRead := (wasRead initial_globals)[0 := True],
                      wasWritten := (wasWritten initial_globals)[0 := True]\<rparr>"

text \<open>The indices a touched-flag array marks.\<close>

definition touched_set :: "bool list \<Rightarrow> nat set" where
  "touched_set touched = set (filter (\<lambda>k. touched ! k) [0..<length touched])"

text \<open>
  Every change counter is 0 or 1; and an outcome without anomaly: the call returned, with
  every counter 0 or 1 (an \<open>Exits\<close> outcome comes from the fatal branch of \<^verbatim>\<open>checkVals\<close> only).
\<close>

definition counters_0_or_1 :: "globals \<Rightarrow> bool" where
  "counters_0_or_1 g \<longleftrightarrow> (\<forall>c\<in>set (changedTimes g). c = 0 \<or> c = 1)"

definition no_anomaly :: "globals outcome \<Rightarrow> bool" where
  "no_anomaly out = (case out of Returns g \<Rightarrow> counters_0_or_1 g | Exits code g \<Rightarrow> False)"

section \<open>Properties of the anomaly check\<close>

lemma scan_slots_none:
  assumes "hi \<le> lo"
  shows "scan_slots lo hi g = g"
proof -
  have a: "(lo \<le> j \<and> j < hi) = False" for j using assms by auto
  have b: "(lo \<le> j \<and> j < hi \<and> slot_changed g j) = False" for j using assms by auto
  show ?thesis unfolding scan_slots_def a b by (simp add: map_nth)
qed

lemma scan_slots_empty: "scan_slots k k g = g"
  by (simp add: scan_slots_none)

lemma scan_slots_same:
  assumes "i < hi" and "\<not> slot_changed g i"
  shows "scan_slots (Suc i) hi g = scan_slots i hi g"
proof -
  have "(Suc i \<le> j \<and> j < hi \<and> slot_changed g j) = (i \<le> j \<and> j < hi \<and> slot_changed g j)" for j
    using assms by (cases "j = i") auto
  moreover have "(if Suc i \<le> j \<and> j < hi then vals g ! j else lastValsScan g ! j) =
      (if i \<le> j \<and> j < hi then vals g ! j else lastValsScan g ! j)" for j
    using assms by (cases "j = i") (auto simp: slot_changed_def)
  ultimately show ?thesis by (simp add: scan_slots_def)
qed

lemma scan_slots_changed:
  assumes "i < hi" and "i < length (lastValsScan g)" and "i < length (changedTimes g)"
    and "slot_changed g i"
  shows "scan_slots (Suc i) hi
           (g\<lparr>changedTimes := (changedTimes g)[i := changedTimes g ! i + 1],
              lastValsScan := (lastValsScan g)[i := vals g ! i]\<rparr>) =
         scan_slots i hi g"
proof -
  let ?g = "g\<lparr>changedTimes := (changedTimes g)[i := changedTimes g ! i + 1],
              lastValsScan := (lastValsScan g)[i := vals g ! i]\<rparr>"
  have sc: "slot_changed ?g j = slot_changed g j" if "j \<noteq> i" for j
    using that by (simp add: slot_changed_def)
  have a: "map (\<lambda>j. if Suc i \<le> j \<and> j < hi then vals ?g ! j else lastValsScan ?g ! j)
             [0..<length (lastValsScan ?g)] =
           map (\<lambda>j. if i \<le> j \<and> j < hi then vals g ! j else lastValsScan g ! j)
             [0..<length (lastValsScan g)]"
  proof (rule nth_equalityI)
    fix j assume "j < length (map (\<lambda>j. if Suc i \<le> j \<and> j < hi then vals ?g ! j else lastValsScan ?g ! j)
             [0..<length (lastValsScan ?g)])"
    then have j: "j < length (lastValsScan g)" by simp
    show "map (\<lambda>j. if Suc i \<le> j \<and> j < hi then vals ?g ! j else lastValsScan ?g ! j)
             [0..<length (lastValsScan ?g)] ! j =
          map (\<lambda>j. if i \<le> j \<and> j < hi then vals g ! j else lastValsScan g ! j)
             [0..<length (lastValsScan g)] ! j"
      using j assms(1,2) by (cases "j = i") (auto simp: nth_list_update)
  qed simp
  have b: "map (\<lambda>j. if Suc i \<le> j \<and> j < hi \<and> slot_changed ?g j then changedTimes ?g ! j + 1
                     else changedTimes ?g ! j)
             [0..<length (changedTimes ?g)] =
           map (\<lambda>j. if i \<le> j \<and> j < hi \<and> slot_changed g j then changedTimes g ! j + 1
                     else changedTimes g ! j)
             [0..<length (changedTimes g)]"
  proof (rule nth_equalityI)
    fix j assume "j < length (map (\<lambda>j. if Suc i \<le> j \<and> j < hi \<and> slot_changed ?g j then changedTimes ?g ! j + 1
                     else changedTimes ?g ! j)
             [0..<length (changedTimes ?g)])"
    then have j: "j < length (changedTimes g)" by simp
    show "map (\<lambda>j. if Suc i \<le> j \<and> j < hi \<and> slot_changed ?g j then changedTimes ?g ! j + 1
                     else changedTimes ?g ! j)
             [0..<length (changedTimes ?g)] ! j =
          map (\<lambda>j. if i \<le> j \<and> j < hi \<and> slot_changed g j then changedTimes g ! j + 1
                     else changedTimes g ! j)
             [0..<length (changedTimes g)] ! j"
    proof (cases "j = i")
      case True
      then show ?thesis using j assms by simp
    next
      case False
      then show ?thesis using j sc[OF False] by (auto simp: nth_list_update)
    qed
  qed simp
  show ?thesis unfolding scan_slots_def a b by simp
qed

lemma scan_slots_fields:
  "vals (scan_slots lo hi g) = vals g" "wasRead (scan_slots lo hi g) = wasRead g"
  "wasWritten (scan_slots lo hi g) = wasWritten g" "savedRead (scan_slots lo hi g) = savedRead g"
  "stderr_text (scan_slots lo hi g) = stderr_text g"
  "length (lastValsScan (scan_slots lo hi g)) = length (lastValsScan g)"
  "length (changedTimes (scan_slots lo hi g)) = length (changedTimes g)"
  by (simp_all add: scan_slots_def)

lemma scan_slots_snapshot:
  "j < length (lastValsScan g) \<Longrightarrow>
   lastValsScan (scan_slots lo hi g) ! j =
     (if lo \<le> j \<and> j < hi then vals g ! j else lastValsScan g ! j)"
  by (simp add: scan_slots_def)

lemma scan_slots_counter:
  "j < length (changedTimes g) \<Longrightarrow>
   changedTimes (scan_slots lo hi g) ! j =
     (if lo \<le> j \<and> j < hi \<and> slot_changed g j then changedTimes g ! j + 1 else changedTimes g ! j)"
  by (simp add: scan_slots_def)

lemma scan_slots_arrays_ok: "arrays_ok g \<Longrightarrow> arrays_ok (scan_slots lo hi g)"
  by (simp add: arrays_ok_def scan_slots_fields)

lemma checkVals_loop_returns:
  "arrays_ok g \<Longrightarrow> \<forall>j. i \<le> j \<and> j < CHECK_FIRST_VALS \<longrightarrow> \<not> slot_fatal g j \<Longrightarrow>
   checkVals_loop i g = Returns (scan_slots i CHECK_FIRST_VALS g)"
proof (induction i g rule: checkVals_loop.induct)
  case (1 i g)
  show ?case
  proof (cases "i < CHECK_FIRST_VALS")
    case False
    then have "scan_slots i CHECK_FIRST_VALS g = g"
      by (simp add: scan_slots_none)
    with False show ?thesis by (subst checkVals_loop.simps) simp
  next
    case True
    note lt = True
    show ?thesis
    proof (cases "vals g ! i \<noteq> lastValsScan g ! i")
      case False
      from "1.prems"(2) have nf: "\<forall>j. i + 1 \<le> j \<and> j < CHECK_FIRST_VALS \<longrightarrow> \<not> slot_fatal g j" by simp
      have "checkVals_loop i g = checkVals_loop (i + 1) g" using lt False
        by (subst checkVals_loop.simps) simp
      also have "\<dots> = Returns (scan_slots (Suc i) CHECK_FIRST_VALS g)"
        using "1.IH"(2)[OF lt refl _ "1.prems"(1) nf] False by simp
      also have "scan_slots (Suc i) CHECK_FIRST_VALS g = scan_slots i CHECK_FIRST_VALS g"
        using False by (intro scan_slots_same[OF lt]) (simp add: slot_changed_def)
      finally show ?thesis .
    next
      case True
      define g1 where "g1 = g\<lparr>changedTimes := (changedTimes g)[i := changedTimes g ! i + 1]\<rparr>"
      define g2 where "g2 = g1\<lparr>lastValsScan := (lastValsScan g1)[i := vals g ! i]\<rparr>"
      have len: "i < length (changedTimes g)" "i < length (lastValsScan g)"
        using lt "1.prems"(1) by (simp_all add: arrays_ok_def CHECK_FIRST_VALS_def)
      from "1.prems"(2) lt True have nfi: "\<not> 1 <s changedTimes g ! i + 1"
        by (auto simp: slot_fatal_def slot_changed_def)
      then have nfi1: "\<not> 1 <s changedTimes g1 ! i" using len by (simp add: g1_def)
      have ok2: "arrays_ok g2" using "1.prems"(1) by (simp add: arrays_ok_def g2_def g1_def)
      have same: "\<And>j. j \<noteq> i \<Longrightarrow> slot_fatal g2 j = slot_fatal g j"
        by (simp add: slot_fatal_def slot_changed_def g2_def g1_def)
      from "1.prems"(2) same have nf: "\<forall>j. i + 1 \<le> j \<and> j < CHECK_FIRST_VALS \<longrightarrow> \<not> slot_fatal g2 j" by simp
      have "checkVals_loop i g = checkVals_loop (i + 1) g2" using lt True nfi1
        by (subst checkVals_loop.simps) (simp add: Let_def g1_def[symmetric] g2_def[symmetric])
      also have "\<dots> = Returns (scan_slots (Suc i) CHECK_FIRST_VALS g2)"
        using "1.IH"(1)[OF lt refl True g1_def nfi1] ok2 nf unfolding g2_def by simp
      also have "scan_slots (Suc i) CHECK_FIRST_VALS g2 = scan_slots i CHECK_FIRST_VALS g"
        using scan_slots_changed[OF lt len(2,1)] True by (simp add: slot_changed_def g2_def g1_def)
      finally show ?thesis .
    qed
  qed
qed

lemma checkVals_loop_exits:
  "arrays_ok g \<Longrightarrow> i \<le> k \<Longrightarrow> k < CHECK_FIRST_VALS \<Longrightarrow> slot_fatal g k \<Longrightarrow>
   \<forall>j. i \<le> j \<and> j < k \<longrightarrow> \<not> slot_fatal g j \<Longrightarrow>
   checkVals_loop i g = Exits 0 (fprintf_stderr UB_message (count_change k (scan_slots i k g)))"
proof (induction i g rule: checkVals_loop.induct)
  case (1 i g)
  from "1.prems" have lt: "i < CHECK_FIRST_VALS" by simp
  have len: "i < length (changedTimes g)" "i < length (lastValsScan g)"
    using lt "1.prems"(1) by (simp_all add: arrays_ok_def CHECK_FIRST_VALS_def)
  show ?case
  proof (cases "i = k")
    case True
    with "1.prems"(4) have ch: "vals g ! i \<noteq> lastValsScan g ! i" and ft: "1 <s changedTimes g ! i + 1"
      by (simp_all add: slot_fatal_def slot_changed_def)
    have "checkVals_loop i g = Exits 0 (fprintf_stderr UB_message (count_change i g))"
      using lt ch ft len by (subst checkVals_loop.simps) (simp add: Let_def count_change_def)
    with True show ?thesis by (simp add: scan_slots_empty)
  next
    case False
    with "1.prems"(2) have ik: "i < k" by simp
    with "1.prems"(5) have nfi: "\<not> slot_fatal g i" by simp
    from ik have ik': "i + 1 \<le> k" by simp
    show ?thesis
    proof (cases "vals g ! i \<noteq> lastValsScan g ! i")
      case False
      from "1.prems"(5) have nf: "\<forall>j. i + 1 \<le> j \<and> j < k \<longrightarrow> \<not> slot_fatal g j" by simp
      have "checkVals_loop i g = checkVals_loop (i + 1) g" using lt False
        by (subst checkVals_loop.simps) simp
      also have "\<dots> = Exits 0 (fprintf_stderr UB_message (count_change k (scan_slots (Suc i) k g)))"
        using "1.IH"(2)[OF lt refl _ "1.prems"(1) ik' "1.prems"(3) "1.prems"(4) nf] False by simp
      also have "scan_slots (Suc i) k g = scan_slots i k g"
        using False by (intro scan_slots_same[OF ik]) (simp add: slot_changed_def)
      finally show ?thesis .
    next
      case True
      define g1 where "g1 = g\<lparr>changedTimes := (changedTimes g)[i := changedTimes g ! i + 1]\<rparr>"
      define g2 where "g2 = g1\<lparr>lastValsScan := (lastValsScan g1)[i := vals g ! i]\<rparr>"
      from nfi True have nfi0: "\<not> 1 <s changedTimes g ! i + 1"
        by (auto simp: slot_fatal_def slot_changed_def)
      then have nfi1: "\<not> 1 <s changedTimes g1 ! i" using len by (simp add: g1_def)
      have ok2: "arrays_ok g2" using "1.prems"(1) by (simp add: arrays_ok_def g2_def g1_def)
      have same: "\<And>j. j \<noteq> i \<Longrightarrow> slot_fatal g2 j = slot_fatal g j"
        by (simp add: slot_fatal_def slot_changed_def g2_def g1_def)
      from "1.prems"(5) same have nf: "\<forall>j. i + 1 \<le> j \<and> j < k \<longrightarrow> \<not> slot_fatal g2 j" by simp
      from "1.prems"(4) same[of k] ik have fk: "slot_fatal g2 k" by simp
      have "checkVals_loop i g = checkVals_loop (i + 1) g2" using lt True nfi1
        by (subst checkVals_loop.simps) (simp add: Let_def g1_def[symmetric] g2_def[symmetric])
      also have "\<dots> = Exits 0 (fprintf_stderr UB_message (count_change k (scan_slots (Suc i) k g2)))"
        using "1.IH"(1)[OF lt refl True g1_def nfi1] ok2 ik' "1.prems"(3) fk nf
        unfolding g2_def by simp
      also have "scan_slots (Suc i) k g2 = scan_slots i k g"
        using scan_slots_changed[OF ik len(2,1)] True by (simp add: slot_changed_def g2_def g1_def)
      finally show ?thesis .
    qed
  qed
qed

lemma arrays_ok_initial: "arrays_ok initial_globals"
  by (simp add: arrays_ok_def initial_globals_def)

lemma one_sless_two: "(1::32 word) <s 2"
  by (simp add: word_sless_alt)

text \<open>
  Claim C1. One call of \<^verbatim>\<open>checkVals\<close> goes through the first \<open>CHECK_FIRST_VALS\<close> slots in
  order. At a slot whose value differs from the snapshot the counter is incremented; if it
  is then over 1 the call appends the line \<open>UB was caught!\<close> to standard error and ends
  the process with exit code 0, leaving the snapshot of that slot as it was; otherwise the
  snapshot takes the new value and the scan goes on. So: when no slot is fatal the call
  returns with every slot scanned and nothing printed; and when \<open>k\<close> is the first fatal
  slot the call exits with code 0, the slots before \<open>k\<close> scanned, the counter of \<open>k\<close>
  incremented and the message printed.
\<close>

theorem checkVals_per_slot:
  assumes ok: "arrays_ok g"
  shows "((\<forall>j<CHECK_FIRST_VALS. \<not> slot_fatal g j) \<longrightarrow>
            checkVals g = Returns (scan_slots 0 CHECK_FIRST_VALS g)) \<and>
         (\<forall>k<CHECK_FIRST_VALS. slot_fatal g k \<and> (\<forall>j<k. \<not> slot_fatal g j) \<longrightarrow>
            checkVals g =
              Exits 0 (fprintf_stderr UB_message (count_change k (scan_slots 0 k g))))"
proof (intro conjI impI allI)
  assume "\<forall>j<CHECK_FIRST_VALS. \<not> slot_fatal g j"
  then have "\<forall>j. 0 \<le> j \<and> j < CHECK_FIRST_VALS \<longrightarrow> \<not> slot_fatal g j" by simp
  from checkVals_loop_returns[OF ok this]
  show "checkVals g = Returns (scan_slots 0 CHECK_FIRST_VALS g)"
    by (simp add: checkVals_def)
next
  fix k assume k: "k < CHECK_FIRST_VALS" and f: "slot_fatal g k \<and> (\<forall>j<k. \<not> slot_fatal g j)"
  then have "\<forall>j. 0 \<le> j \<and> j < k \<longrightarrow> \<not> slot_fatal g j" by simp
  from checkVals_loop_exits[OF ok _ k _ this] f
  show "checkVals g = Exits 0 (fprintf_stderr UB_message (count_change k (scan_slots 0 k g)))"
    by (simp add: checkVals_def)
qed

theorem checkVals_per_slot_witness:
  "checkVals initial_globals = Returns (scan_slots 0 CHECK_FIRST_VALS initial_globals) \<and>
   checkVals revisited_globals =
     Exits 0 (fprintf_stderr UB_message (count_change 0 revisited_globals)) \<and>
   changedTimes (count_change 0 revisited_globals) ! 0 = 2"
proof -
  have a: "arrays_ok initial_globals" by (rule arrays_ok_initial)
  have b: "arrays_ok revisited_globals"
    by (simp add: revisited_globals_def initial_globals_def arrays_ok_def)
  have q: "\<forall>j<CHECK_FIRST_VALS. \<not> slot_fatal initial_globals j"
    by (simp add: slot_fatal_def slot_changed_def initial_globals_def CHECK_FIRST_VALS_def)
  have f: "slot_fatal revisited_globals 0"
    by (simp add: slot_fatal_def slot_changed_def revisited_globals_def initial_globals_def
        VALS_SIZE_def one_sless_two)
  have k: "0 < CHECK_FIRST_VALS" by (simp add: CHECK_FIRST_VALS_def VALS_SIZE_def)
  have c: "changedTimes (count_change 0 revisited_globals) ! 0 = 2"
    by (simp add: count_change_def revisited_globals_def initial_globals_def VALS_SIZE_def)
  show ?thesis
    using checkVals_per_slot [OF a] checkVals_per_slot [OF b] q f k c
    by (simp add: scan_slots_empty)
qed

text \<open>
  Claim C2. From a state whose snapshot equals the shared array and whose counters are all
  0: slot \<open>i\<close> is set to a value \<open>B\<close> other than its value \<open>A\<close>, \<^verbatim>\<open>checkVals\<close> runs (and
  returns), the slot is set back to \<open>A\<close>, \<^verbatim>\<open>checkVals\<close> runs again. The second run ends the
  process with exit code 0, the counter of slot \<open>i\<close> over 1 and the message printed.
\<close>

theorem injected_anomaly_detected:
  assumes ok: "arrays_ok g" and snap: "lastValsScan g = vals g"
    and zero: "\<forall>c\<in>set (changedTimes g). c = 0"
    and i: "i < VALS_SIZE" and ne: "B \<noteq> vals g ! i"
  shows "\<exists>g1 g2. checkVals (g\<lparr>vals := (vals g)[i := B]\<rparr>) = Returns g1 \<and>
           checkVals (g1\<lparr>vals := (vals g1)[i := vals g ! i]\<rparr>) = Exits 0 g2 \<and>
           1 <s changedTimes g2 ! i \<and> stderr_text g2 = stderr_text g @ UB_message"
proof -
  define gB where "gB = g\<lparr>vals := (vals g)[i := B]\<rparr>"
  have iK: "i < CHECK_FIRST_VALS" using i by (simp add: CHECK_FIRST_VALS_def)
  have len: "length (vals g) = VALS_SIZE" "length (changedTimes g) = VALS_SIZE"
    "length (lastValsScan g) = VALS_SIZE"
    using ok by (simp_all add: arrays_ok_def)
  have z: "changedTimes g ! j = 0" if "j < VALS_SIZE" for j
    using zero that len by simp
  have okB: "arrays_ok gB" using ok by (simp add: arrays_ok_def gB_def)
  have chB: "slot_changed gB i"
    using ne snap len i by (simp add: slot_changed_def gB_def)
  have nfB: "\<forall>j. 0 \<le> j \<and> j < CHECK_FIRST_VALS \<longrightarrow> \<not> slot_fatal gB j"
    using z by (simp add: slot_fatal_def gB_def CHECK_FIRST_VALS_def)
  define g1 where "g1 = scan_slots 0 CHECK_FIRST_VALS gB"
  have r1: "checkVals gB = Returns g1"
    using checkVals_loop_returns[OF okB nfB] by (simp add: checkVals_def g1_def)
  define gA where "gA = g1\<lparr>vals := (vals g1)[i := vals g ! i]\<rparr>"
  have ok1: "arrays_ok g1" unfolding g1_def using okB by (rule scan_slots_arrays_ok)
  have okA: "arrays_ok gA" using ok1 by (simp add: arrays_ok_def gA_def)
  have v1: "vals g1 = vals gB" by (simp add: g1_def scan_slots_fields)
  have l1: "lastValsScan g1 ! j = vals gB ! j" if "j < VALS_SIZE" for j
    using that len by (simp add: g1_def scan_slots_snapshot gB_def CHECK_FIRST_VALS_def)
  have c1: "changedTimes g1 ! i = 1"
    using i len chB z[OF i] by (simp add: g1_def scan_slots_counter gB_def CHECK_FIRST_VALS_def)
  have fA: "slot_fatal gA i"
    using l1[OF i] c1 ne len i
    by (simp add: slot_fatal_def slot_changed_def gA_def gB_def v1 one_sless_two)
  have nfA: "\<forall>j. 0 \<le> j \<and> j < i \<longrightarrow> \<not> slot_fatal gA j"
    using l1 i by (simp add: slot_fatal_def slot_changed_def gA_def v1)
  define g2 where "g2 = fprintf_stderr UB_message (count_change i (scan_slots 0 i gA))"
  have r2: "checkVals gA = Exits 0 g2"
    using checkVals_loop_exits[OF okA _ iK fA nfA] by (simp add: checkVals_def g2_def)
  have "changedTimes (scan_slots 0 i gA) ! i = 1"
    using c1 ok1 i by (simp add: scan_slots_counter gA_def arrays_ok_def)
  then have "changedTimes g2 ! i = 2"
    using ok1 i
    by (simp add: g2_def fprintf_stderr_def count_change_def scan_slots_fields gA_def arrays_ok_def)
  then have "1 <s changedTimes g2 ! i" by (simp add: one_sless_two)
  moreover have "stderr_text g2 = stderr_text g @ UB_message"
    by (simp add: g2_def fprintf_stderr_def count_change_def scan_slots_fields gA_def g1_def gB_def)
  ultimately show ?thesis using r1 r2 unfolding gA_def gB_def by blast
qed

theorem injected_anomaly_detected_witness:
  "\<exists>g1 g2. checkVals (initial_globals\<lparr>vals := (vals initial_globals)[0 := 5]\<rparr>) = Returns g1 \<and>
           checkVals (g1\<lparr>vals := (vals g1)[0 := 0]\<rparr>) = Exits 0 g2 \<and>
           1 <s changedTimes g2 ! 0 \<and> stderr_text g2 = UB_message"
  using injected_anomaly_detected [of initial_globals 0 5]
  by (simp add: arrays_ok_initial) (simp add: initial_globals_def VALS_SIZE_def)

section \<open>Properties of the generator\<close>

lemma nextInt_index: "m_index (snd (nextInt g)) = nextInt_i2 g"
  by (simp add: nextInt_def Let_def)

lemma nextInt_buffer:
  "m_buffer (snd (nextInt g)) = (m_buffer g)[nat (m_index g) := twist_r g]"
  by (simp add: nextInt_def Let_def)

lemma nextInt_value: "fst (nextInt g) = swizzle (twist_r g)"
  by (simp add: nextInt_def Let_def)

lemma nextInt_buffer_ok: "buffer_ok g \<Longrightarrow> buffer_ok (snd (nextInt g))"
  by (simp add: buffer_ok_def nextInt_buffer)

lemma nextInt_index_ok: "index_ok g \<Longrightarrow> index_ok (snd (nextInt g))"
  by (simp add: index_ok_def nextInt_index nextInt_i2_def Let_def MT_LEN_def)

lemma wrap_once:
  fixes m k n :: int
  assumes "0 \<le> m" "m < n" "0 \<le> k" "k < n"
  shows "(if m + k \<ge> n then m + k - n else m + k) = (m + k) mod n"
proof (cases "m + k \<ge> n")
  case True
  then have "(m + k) mod n = (m + k - n) mod n" by simp
  also have "\<dots> = m + k - n" using True assms by (intro mod_pos_pos_trivial) simp_all
  finally show ?thesis using True by simp
next
  case False
  then show ?thesis using assms by simp
qed

lemma nextInt_i2_mod: "index_ok g \<Longrightarrow> nextInt_i2 g = (m_index g + 1) mod MT_LEN"
  using wrap_once[of "m_index g" 624 1]
  by (auto simp add: index_ok_def nextInt_i2_def Let_def MT_LEN_def split: if_splits)

lemma nextInt_j_mod: "index_ok g \<Longrightarrow> nextInt_j g = (m_index g + MT_IA) mod MT_LEN"
  using wrap_once[of "m_index g" 624 397]
  by (auto simp add: index_ok_def nextInt_j_def Let_def MT_LEN_def MT_IA_def split: if_splits)

lemma MT_LEN_nonneg: "0 \<le> MT_LEN"
  by (simp add: MT_LEN_def)

lemma shuffle_ok:
  "index_ok g \<Longrightarrow> buffer_ok g \<Longrightarrow>
   index_ok (initMyRandom_shuffle i g) \<and> buffer_ok (initMyRandom_shuffle i g)"
proof (induction i g rule: initMyRandom_shuffle.induct)
  case (1 i g)
  show ?case
  proof (cases "i < MT_LEN * 100")
    case True
    have "initMyRandom_shuffle i g = initMyRandom_shuffle (i + 1) (snd (nextInt g))"
      using True by (subst initMyRandom_shuffle.simps) simp
    with "1.IH"[OF True nextInt_index_ok[OF "1.prems"(1)] nextInt_buffer_ok[OF "1.prems"(2)]]
    show ?thesis by simp
  next
    case False
    then show ?thesis using "1.prems" by (subst (1 2) initMyRandom_shuffle.simps) simp
  qed
qed

lemma fill_index: "m_index (initMyRandom_fill i seed g) = m_index g"
proof (induction i seed g rule: initMyRandom_fill.induct)
  case (1 i seed g)
  show ?case
  proof (cases "i < MT_LEN")
    case True
    then have "initMyRandom_fill i seed g =
       initMyRandom_fill (i + 1) seed (g\<lparr>m_buffer := (m_buffer g)[nat i := seed]\<rparr>)"
      by (subst initMyRandom_fill.simps) simp
    with "1.IH"[OF True] show ?thesis by simp
  next
    case False
    then show ?thesis by (subst initMyRandom_fill.simps) simp
  qed
qed

lemma fill_buffer:
  "0 \<le> i \<Longrightarrow> i \<le> MT_LEN \<Longrightarrow> buffer_ok g \<Longrightarrow>
   m_buffer (initMyRandom_fill i seed g) =
     take (nat i) (m_buffer g) @ replicate (nat (MT_LEN - i)) seed"
proof (induction i seed g rule: initMyRandom_fill.induct)
  case (1 i seed g)
  show ?case
  proof (cases "i < MT_LEN")
    case True
    let ?g = "g\<lparr>m_buffer := (m_buffer g)[nat i := seed]\<rparr>"
    have eq: "initMyRandom_fill i seed g = initMyRandom_fill (i + 1) seed ?g"
      using True by (subst initMyRandom_fill.simps) simp
    have ok: "buffer_ok ?g" using "1.prems"(3) by (simp add: buffer_ok_def)
    have len: "nat i < length (m_buffer g)" using True "1.prems" by (simp add: buffer_ok_def)
    from "1.IH"[OF True _ _ ok] "1.prems"(1) True
    have "m_buffer (initMyRandom_fill (i + 1) seed ?g) =
       take (nat (i + 1)) (m_buffer ?g) @ replicate (nat (MT_LEN - (i + 1))) seed" by simp
    also have "take (nat (i + 1)) (m_buffer ?g) = take (nat i) (m_buffer g) @ [seed]"
      using len "1.prems"(1) by (simp add: nat_add_distrib take_Suc_conv_app_nth)
    also have "(take (nat i) (m_buffer g) @ [seed]) @ replicate (nat (MT_LEN - (i + 1))) seed =
       take (nat i) (m_buffer g) @ replicate (nat (MT_LEN - i)) seed"
    proof -
      have "nat (MT_LEN - i) = Suc (nat (MT_LEN - (i + 1)))" using True by simp
      then show ?thesis by simp
    qed
    finally show ?thesis using eq by simp
  next
    case False
    with "1.prems" have "i = MT_LEN" by simp
    then show ?thesis using "1.prems"(3)
      by (subst initMyRandom_fill.simps) (simp add: buffer_ok_def)
  qed
qed

lemma fill_all:
  "buffer_ok g \<Longrightarrow> (initMyRandom_fill 0 seed g)\<lparr>m_index := 0\<rparr> =
     g\<lparr>m_buffer := replicate (nat MT_LEN) seed, m_index := 0\<rparr>"
  using fill_buffer[OF order_refl MT_LEN_nonneg, of g seed] fill_index[of 0 seed g]
  by (intro MyRandom.equality) simp_all

lemma MyRandom_both_fields:
  "(g::MyRandom)\<lparr>m_buffer := b, m_index := k\<rparr> = \<lparr>m_buffer = b, m_index = k\<rparr>"
  by (cases g) simp

lemma initMyRandom_on_filled:
  "buffer_ok a \<Longrightarrow>
   initMyRandom_on a seed =
     initMyRandom_shuffle 0 \<lparr>m_buffer = replicate (nat MT_LEN) seed, m_index = 0\<rparr>"
  unfolding initMyRandom_on_def Let_def by (simp only: fill_all MyRandom_both_fields)

lemma initMyRandom_on_any:
  "buffer_ok a \<Longrightarrow> buffer_ok b \<Longrightarrow> initMyRandom_on a seed = initMyRandom_on b seed"
  by (simp only: initMyRandom_on_filled)

lemma buffer_ok_zeros: "buffer_ok \<lparr>m_buffer = replicate (nat MT_LEN) x, m_index = k\<rparr>"
  using MT_LEN_nonneg by (simp add: buffer_ok_def)

lemma initMyRandom_filled:
  "initMyRandom seed =
     initMyRandom_shuffle 0 \<lparr>m_buffer = replicate (nat MT_LEN) seed, m_index = 0\<rparr>"
  unfolding initMyRandom_def by (rule initMyRandom_on_filled) (rule buffer_ok_zeros)

lemma index_ok_0: "index_ok \<lparr>m_buffer = b, m_index = 0\<rparr>"
  by (simp add: index_ok_def MT_LEN_def)

lemma initMyRandom_ok: "index_ok (initMyRandom seed) \<and> buffer_ok (initMyRandom seed)"
  unfolding initMyRandom_filled
  by (rule shuffle_ok) (simp add: index_ok_0, rule buffer_ok_zeros)

text \<open>
  Claim C5. Two generator instances initialised with the same seed give the same draws, at
  any length (so for the first 10,000): \<^verbatim>\<open>initMyRandom\<close> overwrites every word of the buffer
  and the cursor before it reads them, so nothing but the seed enters the result, whatever
  the two fresh locals \<open>a\<close> and \<open>b\<close> held.
\<close>

theorem same_seed_same_draws:
  assumes "buffer_ok a" and "buffer_ok b"
  shows "draws n (initMyRandom_on a seed) = draws n (initMyRandom_on b seed)"
  using initMyRandom_on_any [OF assms] by simp

theorem same_seed_same_draws_witness:
  "draws 10000 (initMyRandom_on \<lparr>m_buffer = replicate (nat MT_LEN) 1, m_index = 5\<rparr> 65) =
   draws 10000 (initMyRandom_on \<lparr>m_buffer = replicate (nat MT_LEN) 2, m_index = - 7\<rparr> 65)"
  using same_seed_same_draws [OF buffer_ok_zeros buffer_ok_zeros] .

lemma after_draws_ok:
  "index_ok g \<Longrightarrow> buffer_ok g \<Longrightarrow> index_ok (after_draws n g) \<and> buffer_ok (after_draws n g)"
  by (induction n arbitrary: g) (simp_all add: nextInt_index_ok nextInt_buffer_ok)

text \<open>
  Claim C10. \<open>0 \<le> m_index < MT_LEN\<close> holds of the generator \<^verbatim>\<open>initMyRandom\<close> returns, with
  its buffer of \<open>MT_LEN\<close> words, and of that generator after any number of draws; both
  are kept by \<^verbatim>\<open>nextInt\<close>. Under them the positions \<^verbatim>\<open>i\<close>, \<^verbatim>\<open>i2\<close> and \<^verbatim>\<open>j\<close> that \<^verbatim>\<open>nextInt\<close>
  reads, and the position \<^verbatim>\<open>m_index\<close> it writes, lie within the buffer.
\<close>

theorem index_invariant:
  "index_ok (initMyRandom seed) \<and> buffer_ok (initMyRandom seed) \<and>
   index_ok (after_draws n (initMyRandom seed)) \<and> buffer_ok (after_draws n (initMyRandom seed)) \<and>
   (index_ok g \<longrightarrow> index_ok (snd (nextInt g))) \<and>
   (buffer_ok g \<longrightarrow> buffer_ok (snd (nextInt g))) \<and>
   (index_ok g \<and> buffer_ok g \<longrightarrow>
      0 \<le> m_index g \<and> nat (m_index g) < length (m_buffer g) \<and>
      0 \<le> nextInt_i2 g \<and> nat (nextInt_i2 g) < length (m_buffer g) \<and>
      0 \<le> nextInt_j g \<and> nat (nextInt_j g) < length (m_buffer g))"
proof (intro conjI impI)
  show "index_ok (initMyRandom seed)" "buffer_ok (initMyRandom seed)"
    using initMyRandom_ok by simp_all
  show "index_ok (after_draws n (initMyRandom seed))" "buffer_ok (after_draws n (initMyRandom seed))"
    using after_draws_ok initMyRandom_ok by simp_all
next
  assume "index_ok g" then show "index_ok (snd (nextInt g))" by (rule nextInt_index_ok)
next
  assume "buffer_ok g" then show "buffer_ok (snd (nextInt g))" by (rule nextInt_buffer_ok)
next
  assume a: "index_ok g \<and> buffer_ok g"
  then have i: "0 \<le> m_index g" "m_index g < MT_LEN" and l: "int (length (m_buffer g)) = MT_LEN"
    by (simp_all add: index_ok_def buffer_ok_def)
  show "0 \<le> m_index g" by (rule i)
  show "nat (m_index g) < length (m_buffer g)" using i l by linarith
  have i2: "0 \<le> nextInt_i2 g \<and> nextInt_i2 g < MT_LEN"
    using i by (simp add: nextInt_i2_def Let_def MT_LEN_def)
  show "0 \<le> nextInt_i2 g" using i2 by simp
  show "nat (nextInt_i2 g) < length (m_buffer g)" using i2 l by linarith
  have j: "0 \<le> nextInt_j g \<and> nextInt_j g < MT_LEN"
    using i by (simp add: nextInt_j_def Let_def MT_LEN_def MT_IA_def)
  show "0 \<le> nextInt_j g" using j by simp
  show "nat (nextInt_j g) < length (m_buffer g)" using j l by linarith
qed

lemma last_slot_ok: "index_ok last_slot_random \<and> buffer_ok last_slot_random"
  using buffer_ok_zeros[of 0 623] by (simp add: last_slot_random_def index_ok_def MT_LEN_def)

theorem index_invariant_witness:
  "index_ok (after_draws 10000 (initMyRandom 65)) \<and>
   index_ok last_slot_random \<and> buffer_ok last_slot_random \<and>
   index_ok (snd (nextInt last_slot_random)) \<and> buffer_ok (snd (nextInt last_slot_random)) \<and>
   nat (m_index last_slot_random) < length (m_buffer last_slot_random) \<and>
   nat (nextInt_i2 last_slot_random) < length (m_buffer last_slot_random) \<and>
   nat (nextInt_j last_slot_random) < length (m_buffer last_slot_random)"
  using index_invariant [of 65 10000 last_slot_random] last_slot_ok by simp

lemma low_bit_times: "((s::u32) AND 1) * k = (if bit s 0 then k else 0)"
  by (simp add: and_one_eq bit_0 mod_2_eq_odd)

lemma twist_r_spec:
  "index_ok g \<Longrightarrow>
   twist_r g = spec_twist (m_buffer g ! nat (m_index g)) (m_buffer g ! nat ((m_index g + 1) mod 624))
                  (m_buffer g ! nat ((m_index g + 397) mod 624))"
  using nextInt_i2_mod[of g] nextInt_j_mod[of g]
  by (simp add: twist_r_def twist_s_def spec_twist_def Let_def low_bit_times MT_LEN_def MT_IA_def)

lemma MT_LEN_nat: "nat MT_LEN = 624"
  by (simp add: MT_LEN_def)

lemma twist_r_at_zero:
  "twist_r \<lparr>m_buffer = b, m_index = 0\<rparr> =
     (let s = (b ! 0 AND 0x80000000) OR (b ! 1 AND 0x7fffffff)
      in b ! 397 XOR drop_bit 1 s XOR ((s AND 1) * 0x9908B0DF))"
  by (simp add: twist_r_def twist_s_def nextInt_i2_def nextInt_j_def Let_def MT_LEN_def MT_IA_def)

text \<open>
  One call on a buffer of ones with the cursor at 0, as the C arithmetic gives it: the raw
  value \<open>0x9908B0DE\<close> goes to slot 0, the cursor to 1, and the tempered value is returned.
\<close>

lemma nextInt_example:
  "fst (nextInt \<lparr>m_buffer = replicate (nat MT_LEN) 1, m_index = 0\<rparr>) = 4275563133 \<and>
   m_buffer (snd (nextInt \<lparr>m_buffer = replicate (nat MT_LEN) 1, m_index = 0\<rparr>)) ! 0 = 2567483614 \<and>
   m_index (snd (nextInt \<lparr>m_buffer = replicate (nat MT_LEN) 1, m_index = 0\<rparr>)) = 1"
  by (simp add: nextInt_value nextInt_buffer nextInt_index twist_r_at_zero MT_LEN_nat Let_def
      swizzle_def nextInt_i2_def MT_LEN_def)

text \<open>
  Claim C6 as stated has the raw value combined from two buffer slots. With the cursor at 0
  on a zero buffer the raw value is 0; it changes when slot 397 alone is changed (slots 0
  and 1, which the twist mixes, staying as they are), as it does when slot 0 or slot 1 alone
  is changed. The raw value depends on three slots.
\<close>

theorem raw_value_needs_third_slot:
  "m_buffer (zero_random\<lparr>m_buffer := (m_buffer zero_random)[397 := 1]\<rparr>) ! 0 = m_buffer zero_random ! 0 \<and>
   m_buffer (zero_random\<lparr>m_buffer := (m_buffer zero_random)[397 := 1]\<rparr>) ! 1 = m_buffer zero_random ! 1 \<and>
   twist_r zero_random = 0 \<and>
   twist_r (zero_random\<lparr>m_buffer := (m_buffer zero_random)[397 := 1]\<rparr>) = 1 \<and>
   twist_r (zero_random\<lparr>m_buffer := (m_buffer zero_random)[1 := 2]\<rparr>) = 1 \<and>
   twist_r (zero_random\<lparr>m_buffer := (m_buffer zero_random)[0 := 0x80000000]\<rparr>) = 0x40000000"
  by (simp add: zero_random_def twist_r_at_zero MT_LEN_nat Let_def)

text \<open>
  Claim C6, amended. Each call of \<^verbatim>\<open>nextInt\<close> combines three buffer slots (at the cursor,
  one after it and 397 after it, each modulo 624) in the twist to the raw value, writes the
  raw value back at the cursor, advances the cursor by one modulo 624, and returns the raw
  value after the tempering steps right-shift 11, left-shift 7 masked with 0x9d2c5680,
  left-shift 15 masked with 0xefc60000, right-shift 18, in that order.
\<close>

theorem nextInt_three_slots:
  "index_ok g \<Longrightarrow> nextInt g = spec_nextInt g"
  using nextInt_i2_mod[of g] twist_r_spec[of g]
  by (simp add: nextInt_def spec_nextInt_def Let_def swizzle_def spec_temper_def MT_LEN_def
      MyRandom_both_fields)

theorem nextInt_three_slots_witness:
  "index_ok last_slot_random \<and> nextInt last_slot_random = spec_nextInt last_slot_random"
  using nextInt_three_slots [of last_slot_random] last_slot_ok by simp

section \<open>Properties of the reset step and of the preparation of the workers\<close>

lemma length_draws: "length (draws n rnd) = n"
  by (induction n arbitrary: rnd) simp_all

lemma clearState_loop_frame:
  "lastValsScan (clearState_loop i rnd g) = lastValsScan g \<and>
   changedTimes (clearState_loop i rnd g) = changedTimes g \<and>
   wasRead (clearState_loop i rnd g) = wasRead g \<and>
   wasWritten (clearState_loop i rnd g) = wasWritten g \<and>
   savedRead (clearState_loop i rnd g) = savedRead g \<and>
   stderr_text (clearState_loop i rnd g) = stderr_text g \<and>
   length (vals (clearState_loop i rnd g)) = length (vals g)"
proof (induction i rnd g rule: clearState_loop.induct)
  case (1 i rnd g)
  show ?case
  proof (cases "i < VALS_SIZE")
    case True
    obtain r rnd1 where n: "nextInt rnd = (r, rnd1)" by (cases "nextInt rnd")
    have "clearState_loop i rnd g = clearState_loop (i + 1) rnd1 (g\<lparr>vals := (vals g)[i := r]\<rparr>)"
      using True n by (subst clearState_loop.simps) simp
    with "1.IH"[OF True n[symmetric] refl] show ?thesis by simp
  next
    case False
    then show ?thesis by (subst (1 2 3 4 5 6 7) clearState_loop.simps) simp
  qed
qed

lemma clearState_loop_vals:
  "length (vals g) = VALS_SIZE \<Longrightarrow> j < VALS_SIZE \<Longrightarrow>
   vals (clearState_loop i rnd g) ! j =
     (if i \<le> j then draws (VALS_SIZE - i) rnd ! (j - i) else vals g ! j)"
proof (induction i rnd g rule: clearState_loop.induct)
  case (1 i rnd g)
  show ?case
  proof (cases "i < VALS_SIZE")
    case True
    obtain r rnd1 where n: "nextInt rnd = (r, rnd1)" by (cases "nextInt rnd")
    let ?g = "g\<lparr>vals := (vals g)[i := r]\<rparr>"
    have eq: "clearState_loop i rnd g = clearState_loop (i + 1) rnd1 ?g"
      using True n by (subst clearState_loop.simps) simp
    have len: "length (vals ?g) = VALS_SIZE" using "1.prems"(1) by simp
    have d: "draws (VALS_SIZE - i) rnd = r # draws (VALS_SIZE - (i + 1)) rnd1"
    proof -
      have "VALS_SIZE - i = Suc (VALS_SIZE - (i + 1))" using True by simp
      then show ?thesis using n by simp
    qed
    from "1.IH"[OF True n[symmetric] refl len "1.prems"(2)]
    have "vals (clearState_loop (i + 1) rnd1 ?g) ! j =
       (if i + 1 \<le> j then draws (VALS_SIZE - (i + 1)) rnd1 ! (j - (i + 1)) else vals ?g ! j)" .
    then show ?thesis unfolding eq d using "1.prems" True
      by (auto simp: nth_Cons' nth_list_update)
  next
    case False
    then show ?thesis using "1.prems"(2) by (subst clearState_loop.simps) simp
  qed
qed

lemma clearState_vals:
  assumes "length (vals g) = VALS_SIZE"
  shows "vals (clearState t g) = draws VALS_SIZE (initMyRandom (of_int (MAIN_RANDOM_START_SEED + t)))"
proof (rule nth_equalityI)
  show "length (vals (clearState t g)) =
     length (draws VALS_SIZE (initMyRandom (of_int (MAIN_RANDOM_START_SEED + t))))"
    using assms clearState_loop_frame[of 0 _ g] by (simp add: clearState_def Let_def length_draws)
next
  fix j assume "j < length (vals (clearState t g))"
  then have "j < VALS_SIZE" using assms clearState_loop_frame[of 0 _ g]
    by (simp add: clearState_def Let_def)
  from clearState_loop_vals[OF assms this, of 0]
  show "vals (clearState t g) ! j =
     draws VALS_SIZE (initMyRandom (of_int (MAIN_RANDOM_START_SEED + t))) ! j"
    by (simp add: clearState_def Let_def)
qed

lemma clearState_frame:
  "lastValsScan (clearState t g) = lastValsScan g \<and>
   changedTimes (clearState t g) = changedTimes g \<and>
   wasRead (clearState t g) = wasRead g \<and>
   wasWritten (clearState t g) = wasWritten g \<and>
   savedRead (clearState t g) = savedRead g \<and>
   stderr_text (clearState t g) = stderr_text g \<and>
   length (vals (clearState t g)) = length (vals g)"
  using clearState_loop_frame[of 0 _ g] by (simp add: clearState_def Let_def)

text \<open>
  Claim C7. \<^verbatim>\<open>clearState(t)\<close> run twice in a row leaves the same shared array as run once.
\<close>

theorem clearState_twice:
  assumes "length (vals g) = VALS_SIZE"
  shows "vals (clearState t (clearState t g)) = vals (clearState t g)"
proof -
  have "length (vals (clearState t g)) = VALS_SIZE" using assms clearState_frame[of t g] by simp
  from clearState_vals[OF this] clearState_vals[OF assms] show ?thesis by simp
qed

theorem clearState_twice_witness:
  "length (vals initial_globals) = VALS_SIZE \<and>
   vals (clearState 0 (clearState 0 initial_globals)) = vals (clearState 0 initial_globals)"
  using clearState_twice [of initial_globals 0] by (simp add: initial_globals_def)

lemma doReads_prepare_loop_spec:
  "arrays_ok g \<Longrightarrow>
   arrays_ok (doReads_prepare_loop i g) \<and>
   vals (doReads_prepare_loop i g) = vals g \<and>
   wasWritten (doReads_prepare_loop i g) = wasWritten g \<and>
   savedRead (doReads_prepare_loop i g) = savedRead g \<and>
   stderr_text (doReads_prepare_loop i g) = stderr_text g \<and>
   (\<forall>j<VALS_SIZE.
      wasRead (doReads_prepare_loop i g) ! j = (if i \<le> j then False else wasRead g ! j) \<and>
      lastValsScan (doReads_prepare_loop i g) ! j = (if i \<le> j then vals g ! j else lastValsScan g ! j) \<and>
      changedTimes (doReads_prepare_loop i g) ! j = (if i \<le> j then 0 else changedTimes g ! j))"
proof (induction i g rule: doReads_prepare_loop.induct)
  case (1 i g)
  show ?case
  proof (cases "i < VALS_SIZE")
    case True
    let ?g = "g\<lparr>wasRead := (wasRead g)[i := False],
                lastValsScan := (lastValsScan g)[i := vals g ! i],
                changedTimes := (changedTimes g)[i := 0]\<rparr>"
    have eq: "doReads_prepare_loop i g = doReads_prepare_loop (i + 1) ?g"
      using True by (subst doReads_prepare_loop.simps) simp
    have ok: "arrays_ok ?g" using "1.prems" by (simp add: arrays_ok_def)
    have le: "i \<le> j \<longleftrightarrow> j = i \<or> i + 1 \<le> j" for j by auto
    from "1.IH"[OF True ok] "1.prems" True show ?thesis unfolding eq
      by (auto simp: nth_list_update arrays_ok_def le)
  next
    case False
    then show ?thesis using "1.prems" by (subst (1 2 3 4 5 6 7 8) doReads_prepare_loop.simps) simp
  qed
qed

lemma doReads_prepare_spec:
  assumes "arrays_ok g"
  shows "arrays_ok (snd (doReads_prepare t g)) \<and>
         fst (doReads_prepare t g) = initMyRandom (of_int (READ_RANDOM_START_SEED + t)) \<and>
         wasRead (snd (doReads_prepare t g)) = replicate VALS_SIZE False \<and>
         lastValsScan (snd (doReads_prepare t g)) = vals g \<and>
         changedTimes (snd (doReads_prepare t g)) = replicate VALS_SIZE 0 \<and>
         savedRead (snd (doReads_prepare t g)) = 0 \<and>
         vals (snd (doReads_prepare t g)) = vals g \<and>
         wasWritten (snd (doReads_prepare t g)) = wasWritten g \<and>
         stderr_text (snd (doReads_prepare t g)) = stderr_text g"
proof -
  note sp = doReads_prepare_loop_spec[OF assms, of 0]
  let ?g = "doReads_prepare_loop 0 g"
  have ok: "arrays_ok ?g" using sp by simp
  have len: "length (vals g) = VALS_SIZE" using assms by (simp add: arrays_ok_def)
  have a: "wasRead ?g = replicate VALS_SIZE False"
    using sp ok by (intro nth_equalityI) (simp_all add: arrays_ok_def)
  have b: "lastValsScan ?g = vals g"
    using sp ok len by (intro nth_equalityI) (simp_all add: arrays_ok_def)
  have c: "changedTimes ?g = replicate VALS_SIZE 0"
    using sp ok by (intro nth_equalityI) (simp_all add: arrays_ok_def)
  show ?thesis using a b c sp ok by (simp add: doReads_prepare_def Let_def arrays_ok_def)
qed

lemma doWrites_prepare_loop_spec:
  "arrays_ok g \<Longrightarrow>
   arrays_ok (doWrites_prepare_loop i g) \<and>
   vals (doWrites_prepare_loop i g) = vals g \<and>
   lastValsScan (doWrites_prepare_loop i g) = lastValsScan g \<and>
   changedTimes (doWrites_prepare_loop i g) = changedTimes g \<and>
   wasRead (doWrites_prepare_loop i g) = wasRead g \<and>
   savedRead (doWrites_prepare_loop i g) = savedRead g \<and>
   stderr_text (doWrites_prepare_loop i g) = stderr_text g \<and>
   (\<forall>j<VALS_SIZE.
      wasWritten (doWrites_prepare_loop i g) ! j = (if i \<le> j then False else wasWritten g ! j))"
proof (induction i g rule: doWrites_prepare_loop.induct)
  case (1 i g)
  show ?case
  proof (cases "i < VALS_SIZE")
    case True
    let ?g = "g\<lparr>wasWritten := (wasWritten g)[i := False]\<rparr>"
    have eq: "doWrites_prepare_loop i g = doWrites_prepare_loop (i + 1) ?g"
      using True by (subst doWrites_prepare_loop.simps) simp
    have ok: "arrays_ok ?g" using "1.prems" by (simp add: arrays_ok_def)
    have le: "i \<le> j \<longleftrightarrow> j = i \<or> i + 1 \<le> j" for j by auto
    from "1.IH"[OF True ok] "1.prems" True show ?thesis unfolding eq
      by (auto simp: nth_list_update arrays_ok_def le)
  next
    case False
    then show ?thesis using "1.prems" by (subst (1 2 3 4 5 6 7 8) doWrites_prepare_loop.simps) simp
  qed
qed

lemma doWrites_prepare_spec:
  assumes "arrays_ok g"
  shows "arrays_ok (snd (doWrites_prepare t g)) \<and>
         fst (doWrites_prepare t g) = initMyRandom (of_int (WRITE_RANDOM_START_SEED + t)) \<and>
         wasWritten (snd (doWrites_prepare t g)) = replicate VALS_SIZE False \<and>
         vals (snd (doWrites_prepare t g)) = vals g \<and>
         lastValsScan (snd (doWrites_prepare t g)) = lastValsScan g \<and>
         changedTimes (snd (doWrites_prepare t g)) = changedTimes g \<and>
         wasRead (snd (doWrites_prepare t g)) = wasRead g \<and>
         savedRead (snd (doWrites_prepare t g)) = savedRead g \<and>
         stderr_text (snd (doWrites_prepare t g)) = stderr_text g"
proof -
  note sp = doWrites_prepare_loop_spec[OF assms, of 0]
  let ?g = "doWrites_prepare_loop 0 g"
  have ok: "arrays_ok ?g" using sp by simp
  have a: "wasWritten ?g = replicate VALS_SIZE False"
    using sp ok by (intro nth_equalityI) (simp_all add: arrays_ok_def)
  show ?thesis using a sp ok by (simp add: doWrites_prepare_def Let_def arrays_ok_def)
qed

lemma arrays_ok_used: "arrays_ok used_globals"
  by (simp add: used_globals_def initial_globals_def arrays_ok_def)

text \<open>
  Claim C8 as stated has the reset step clear the bookkeeping arrays before the workers are
  created. The reset step of \<^verbatim>\<open>main\<close> is \<^verbatim>\<open>clearState(iter)\<close>, and \<^verbatim>\<open>test(iter)\<close> then creates
  the workers: after \<^verbatim>\<open>clearState\<close> the snapshot, the counter and the two touched flags of
  slot 0 are what they were before.
\<close>

theorem clearState_keeps_bookkeeping:
  "lastValsScan (clearState 0 used_globals) ! 0 = 9 \<and>
   changedTimes (clearState 0 used_globals) ! 0 = 1 \<and>
   wasRead (clearState 0 used_globals) ! 0 \<and>
   wasWritten (clearState 0 used_globals) ! 0"
  by (simp add: clearState_frame used_globals_def initial_globals_def VALS_SIZE_def)

text \<open>
  Claim C8, amended. \<^verbatim>\<open>clearState(t)\<close> regenerates the whole shared array from the generator
  seeded with \<open>MAIN_RANDOM_START_SEED + t\<close> and leaves the bookkeeping arrays as they are.
  The workers reinitialise the bookkeeping themselves, in the first part of their own code:
  the reader clears \<^verbatim>\<open>wasRead\<close> and \<^verbatim>\<open>changedTimes\<close> and copies the shared array into
  \<^verbatim>\<open>lastValsScan\<close>, the writer clears \<^verbatim>\<open>wasWritten\<close>.
\<close>

theorem reset_and_prepare:
  assumes "arrays_ok g"
  shows "vals (clearState t g) =
           draws VALS_SIZE (initMyRandom (of_int (MAIN_RANDOM_START_SEED + t))) \<and>
         lastValsScan (clearState t g) = lastValsScan g \<and>
         changedTimes (clearState t g) = changedTimes g \<and>
         wasRead (clearState t g) = wasRead g \<and>
         wasWritten (clearState t g) = wasWritten g \<and>
         wasRead (snd (doReads_prepare t g)) = replicate VALS_SIZE False \<and>
         lastValsScan (snd (doReads_prepare t g)) = vals g \<and>
         changedTimes (snd (doReads_prepare t g)) = replicate VALS_SIZE 0 \<and>
         vals (snd (doReads_prepare t g)) = vals g \<and>
         wasWritten (snd (doReads_prepare t g)) = wasWritten g \<and>
         wasWritten (snd (doWrites_prepare t g)) = replicate VALS_SIZE False \<and>
         vals (snd (doWrites_prepare t g)) = vals g \<and>
         lastValsScan (snd (doWrites_prepare t g)) = lastValsScan g \<and>
         changedTimes (snd (doWrites_prepare t g)) = changedTimes g \<and>
         wasRead (snd (doWrites_prepare t g)) = wasRead g"
proof -
  have "length (vals g) = VALS_SIZE" using assms by (simp add: arrays_ok_def)
  from clearState_vals[OF this, of t] clearState_frame[of t g]
    doReads_prepare_spec[OF assms, of t] doWrites_prepare_spec[OF assms, of t]
  show ?thesis by simp
qed

theorem reset_and_prepare_witness:
  "arrays_ok used_globals \<and>
   changedTimes (clearState 1 used_globals) = changedTimes used_globals \<and>
   changedTimes (snd (doReads_prepare 1 used_globals)) = replicate VALS_SIZE 0 \<and>
   wasRead (snd (doReads_prepare 1 used_globals)) = replicate VALS_SIZE False \<and>
   lastValsScan (snd (doReads_prepare 1 used_globals)) = vals used_globals \<and>
   wasWritten (snd (doWrites_prepare 1 used_globals)) = replicate VALS_SIZE False"
  using reset_and_prepare [OF arrays_ok_used, of 1] arrays_ok_used by simp

section \<open>Properties of the random indices\<close>

lemma unat_VALS_SIZE: "unat (of_nat VALS_SIZE :: u32) = VALS_SIZE"
  by (simp add: VALS_SIZE_def)

lemma getRandomIndex_bound: "unat (fst (getRandomIndex myRandom)) < VALS_SIZE"
proof -
  have "unat (fst (nextInt myRandom) mod of_nat VALS_SIZE) =
        unat (fst (nextInt myRandom)) mod VALS_SIZE"
    by (simp only: unat_mod unat_VALS_SIZE)
  moreover have "0 < VALS_SIZE" by (simp add: VALS_SIZE_def)
  ultimately show ?thesis
    by (simp add: getRandomIndex_def split_beta)
qed

lemma resample_while_unmarked_fst:
  assumes "resample_while touched random index = Some y"
  shows "\<not> touched ! unat (fst y)"
  by (rule resample_while.raw_induct
        [where P = "\<lambda>touched random index y. \<not> touched ! unat (fst y)", OF _ assms])
     (auto split: if_splits)

lemma resample_while_unmarked:
  "resample_while touched random index = Some (index1, random1) \<Longrightarrow> \<not> touched ! unat index1"
  using resample_while_unmarked_fst by fastforce

lemma resample_while_bound_fst:
  assumes "resample_while touched random index = Some y"
  shows "unat index < VALS_SIZE \<longrightarrow> unat (fst y) < VALS_SIZE"
  by (rule resample_while.raw_induct
        [where P = "\<lambda>touched random index y. unat index < VALS_SIZE \<longrightarrow> unat (fst y) < VALS_SIZE",
         OF _ assms])
     (auto split: if_splits simp: getRandomIndex_bound)

lemma resample_while_bound:
  "resample_while touched random index = Some (index1, random1) \<Longrightarrow>
   unat index < VALS_SIZE \<Longrightarrow> unat index1 < VALS_SIZE"
  using resample_while_bound_fst by fastforce

lemma resample_while_now:
  "\<not> touched ! unat index \<Longrightarrow> resample_while touched random index = Some (index, random)"
  by (subst resample_while.simps) simp

text \<open>
  Claim C9. \<^verbatim>\<open>getRandomIndex\<close> returns \<^verbatim>\<open>nextInt\<close> modulo \<open>VALS_SIZE\<close>: for every generator
  state the index is below \<open>VALS_SIZE\<close>. The index with which the resampling loop of the
  reader or the writer ends is one of these, so it lies within the shared array and the
  touched-flag arrays; every counting \<^verbatim>\<open>for\<close> statement stops at \<open>VALS_SIZE\<close> or at
  \<open>CHECK_FIRST_VALS\<close>, which is not larger.
\<close>

theorem random_index_in_bounds:
  "unat (fst (getRandomIndex myRandom)) < VALS_SIZE \<and>
   CHECK_FIRST_VALS \<le> VALS_SIZE \<and>
   (\<forall>index random1.
      resample_while touched (snd (getRandomIndex myRandom)) (fst (getRandomIndex myRandom)) =
        Some (index, random1) \<longrightarrow>
      unat index < VALS_SIZE \<and>
      (arrays_ok g \<longrightarrow>
         unat index < length (vals g) \<and> unat index < length (wasRead g) \<and>
         unat index < length (wasWritten g)))"
  using resample_while_bound[OF _ getRandomIndex_bound]
  by (auto simp: getRandomIndex_bound CHECK_FIRST_VALS_def arrays_ok_def)

theorem random_index_in_bounds_witness:
  "\<exists>index random1.
      resample_while (wasRead initial_globals) (snd (getRandomIndex zero_random))
        (fst (getRandomIndex zero_random)) = Some (index, random1) \<and>
      arrays_ok initial_globals \<and> unat index < length (vals initial_globals)"
proof -
  have "\<not> wasRead initial_globals ! unat (fst (getRandomIndex zero_random))"
    using getRandomIndex_bound[of zero_random] by (simp add: initial_globals_def)
  from resample_while_now[OF this]
  have r: "resample_while (wasRead initial_globals) (snd (getRandomIndex zero_random))
        (fst (getRandomIndex zero_random)) =
        Some (fst (getRandomIndex zero_random), snd (getRandomIndex zero_random))" .
  with random_index_in_bounds [of zero_random "wasRead initial_globals" initial_globals]
    arrays_ok_initial
  show ?thesis by (cases "getRandomIndex zero_random") auto
qed

section \<open>Properties of the reader and the writer\<close>

lemma checkVals_loop_quiet:
  "lastValsScan g = vals g \<Longrightarrow> checkVals_loop i g = Returns g"
proof (induction i g rule: checkVals_loop.induct)
  case (1 i g)
  show ?case
  proof (cases "i < CHECK_FIRST_VALS")
    case True
    have "checkVals_loop i g = checkVals_loop (i + 1) g"
      using True "1.prems" by (subst checkVals_loop.simps) simp
    with "1.IH"(2)[OF True refl _ "1.prems"] "1.prems" show ?thesis by simp
  next
    case False
    then show ?thesis by (subst checkVals_loop.simps) simp
  qed
qed

lemma checkVals_quiet: "lastValsScan g = vals g \<Longrightarrow> checkVals g = Returns g"
  by (simp add: checkVals_def checkVals_loop_quiet)

lemma checkVals_loop_frame:
  "checkVals_loop i g = Returns g' \<Longrightarrow>
   vals g' = vals g \<and> wasRead g' = wasRead g \<and> wasWritten g' = wasWritten g \<and>
   savedRead g' = savedRead g \<and> stderr_text g' = stderr_text g \<and>
   length (lastValsScan g') = length (lastValsScan g) \<and>
   length (changedTimes g') = length (changedTimes g)"
proof (induction i g rule: checkVals_loop.induct)
  case (1 i g)
  show ?case
  proof (cases "i < CHECK_FIRST_VALS")
    case False
    with "1.prems" show ?thesis by (subst (asm) checkVals_loop.simps) auto
  next
    case True
    note lt = True
    show ?thesis
    proof (cases "vals g ! i \<noteq> lastValsScan g ! i")
      case False
      have "checkVals_loop i g = checkVals_loop (i + 1) g"
        using lt False by (subst checkVals_loop.simps) simp
      with "1.IH"(2)[OF lt refl False] "1.prems" show ?thesis by simp
    next
      case True
      define g1 where "g1 = g\<lparr>changedTimes := (changedTimes g)[i := changedTimes g ! i + 1]\<rparr>"
      define g2 where "g2 = g1\<lparr>lastValsScan := (lastValsScan g1)[i := vals g ! i]\<rparr>"
      have unf: "checkVals_loop i g =
          (if 1 <s changedTimes g1 ! i then Exits 0 (fprintf_stderr UB_message g1)
           else checkVals_loop (i + 1) g2)"
        using lt True by (subst checkVals_loop.simps) (simp add: Let_def g1_def g2_def)
      with "1.prems" have nf: "\<not> 1 <s changedTimes g1 ! i" and rec: "checkVals_loop (i + 1) g2 = Returns g'"
        by (auto split: if_splits)
      from "1.IH"(1)[OF lt refl True g1_def nf] rec
      show ?thesis by (simp add: g2_def g1_def)
    qed
  qed
qed

lemma checkVals_frame:
  "checkVals g = Returns g' \<Longrightarrow>
   vals g' = vals g \<and> wasRead g' = wasRead g \<and> wasWritten g' = wasWritten g \<and>
   savedRead g' = savedRead g \<and> stderr_text g' = stderr_text g \<and>
   length (lastValsScan g') = length (lastValsScan g) \<and>
   length (changedTimes g') = length (changedTimes g)"
  unfolding checkVals_def by (rule checkVals_loop_frame)

lemma touched_set_iff: "k \<in> touched_set touched \<longleftrightarrow> k < length touched \<and> touched ! k"
  by (auto simp: touched_set_def)

lemma finite_touched_set: "finite (touched_set touched)"
  by (simp add: touched_set_def)

lemma card_touched_set_le: "card (touched_set touched) \<le> length touched"
proof -
  have "touched_set touched \<subseteq> {..<length touched}" by (auto simp: touched_set_iff)
  then have "card (touched_set touched) \<le> card {..<length touched}"
    by (intro card_mono) simp_all
  then show ?thesis by simp
qed

lemma touched_set_clear: "touched_set (replicate n False) = {}"
  by (auto simp: touched_set_iff)

lemma touched_set_mark:
  assumes "k < length touched" and "\<not> touched ! k"
  shows "card (touched_set (touched[k := True])) = Suc (card (touched_set touched))"
proof -
  have "touched_set (touched[k := True]) = insert k (touched_set touched)"
    using assms(1) by (auto simp: touched_set_iff nth_list_update split: if_splits)
  moreover have "k \<notin> touched_set touched" using assms(2) by (simp add: touched_set_iff)
  ultimately show ?thesis using finite_touched_set by simp
qed

lemma doReads_body_Returns:
  assumes ok: "arrays_ok g" and r: "doReads_body i rnd g = Some (Returns (rnd1, g'))"
  shows "arrays_ok g' \<and> vals g' = vals g \<and> wasWritten g' = wasWritten g \<and>
         (\<exists>k<VALS_SIZE. \<not> wasRead g ! k \<and> wasRead g' = (wasRead g)[k := True])"
proof -
  from r obtain idx r1 where rs:
    "resample_while (wasRead g) (snd (getRandomIndex rnd)) (fst (getRandomIndex rnd)) = Some (idx, r1)"
    by (auto simp: doReads_body_def split: option.splits)
  define g1 where "g1 = g\<lparr>wasRead := (wasRead g)[unat idx := True]\<rparr>"
  define g2 where "g2 = g1\<lparr>savedRead := (vals g1 ! unat idx + vals g1 ! unat idx - 1) +
                      (savedRead g1 - 1 + vals g1 ! unat idx) * vals g1 ! unat idx\<rparr>"
  from r rs have c: "(if i mod CHECK_EACH_ITER = 0 then checkVals g2 else Returns g2) = Returns g'"
    by (auto simp: doReads_body_def Let_def g2_def g1_def split: outcome.splits)
  have fr: "vals g' = vals g2 \<and> wasRead g' = wasRead g2 \<and> wasWritten g' = wasWritten g2 \<and>
     length (lastValsScan g') = length (lastValsScan g2) \<and>
     length (changedTimes g') = length (changedTimes g2)"
  proof (cases "i mod CHECK_EACH_ITER = 0")
    case True
    with c have "checkVals g2 = Returns g'" by simp
    from checkVals_frame[OF this] show ?thesis by simp
  next
    case False
    with c show ?thesis by simp
  qed
  have b: "unat idx < VALS_SIZE" using resample_while_bound[OF rs getRandomIndex_bound] .
  have u: "\<not> wasRead g ! unat idx" using resample_while_unmarked[OF rs] .
  show ?thesis using fr ok b u by (auto simp: g2_def g1_def arrays_ok_def)
qed

lemma doReads_loop_card:
  "arrays_ok g \<Longrightarrow> i \<le> n \<Longrightarrow> doReads_loop n i rnd g = Some (Returns g') \<Longrightarrow>
   arrays_ok g' \<and> vals g' = vals g \<and> wasWritten g' = wasWritten g \<and>
   card (touched_set (wasRead g')) = card (touched_set (wasRead g)) + (n - i)"
proof (induction n i rnd g rule: doReads_loop.induct)
  case (1 n i rnd g)
  show ?case
  proof (cases "i < n")
    case False
    with "1.prems" show ?thesis by (subst (asm) doReads_loop.simps) auto
  next
    case True
    from "1.prems"(3) True obtain rnd1 g1 where
      b: "doReads_body i rnd g = Some (Returns (rnd1, g1))" and
      l: "doReads_loop n (i + 1) rnd1 g1 = Some (Returns g')"
      by (subst (asm) doReads_loop.simps) (auto split: option.splits outcome.splits)
    from doReads_body_Returns[OF "1.prems"(1) b] obtain k where
      s: "arrays_ok g1" "vals g1 = vals g" "wasWritten g1 = wasWritten g"
         "k < VALS_SIZE" "\<not> wasRead g ! k" "wasRead g1 = (wasRead g)[k := True]"
      by blast
    have "card (touched_set (wasRead g1)) = Suc (card (touched_set (wasRead g)))"
      using s(4-6) "1.prems"(1) by (simp add: touched_set_mark arrays_ok_def)
    moreover from "1.IH"[OF True b refl refl s(1) _ l] True
    have "arrays_ok g' \<and> vals g' = vals g1 \<and> wasWritten g' = wasWritten g1 \<and>
      card (touched_set (wasRead g')) = card (touched_set (wasRead g1)) + (n - (i + 1))" by simp
    ultimately show ?thesis using s(2,3) True by simp
  qed
qed

lemma doWrites_body_Some:
  assumes ok: "arrays_ok g" and r: "doWrites_body rnd g = Some (rnd1, g')"
  shows "arrays_ok g' \<and> lastValsScan g' = lastValsScan g \<and> changedTimes g' = changedTimes g \<and>
         wasRead g' = wasRead g \<and> savedRead g' = savedRead g \<and> stderr_text g' = stderr_text g \<and>
         (\<exists>k<VALS_SIZE. \<not> wasWritten g ! k \<and> wasWritten g' = (wasWritten g)[k := True] \<and>
            (\<exists>r. vals g' = (vals g)[k := r]))"
proof -
  from r obtain idx r1 where rs:
    "resample_while (wasWritten g) (snd (getRandomIndex rnd)) (fst (getRandomIndex rnd)) = Some (idx, r1)"
    by (auto simp: doWrites_body_def split: option.splits)
  from r rs have g': "g' = g\<lparr>wasWritten := (wasWritten g)[unat idx := True],
                           vals := (vals g)[unat idx := fst (nextInt r1)]\<rparr>"
    by (auto simp: doWrites_body_def Let_def split_beta)
  have b: "unat idx < VALS_SIZE" using resample_while_bound[OF rs getRandomIndex_bound] .
  have u: "\<not> wasWritten g ! unat idx" using resample_while_unmarked[OF rs] .
  show ?thesis using ok b u by (auto simp: g' arrays_ok_def)
qed

lemma doWrites_loop_card:
  "arrays_ok g \<Longrightarrow> i \<le> n \<Longrightarrow> doWrites_loop n i rnd g = Some g' \<Longrightarrow>
   arrays_ok g' \<and> lastValsScan g' = lastValsScan g \<and> changedTimes g' = changedTimes g \<and>
   wasRead g' = wasRead g \<and> savedRead g' = savedRead g \<and> stderr_text g' = stderr_text g \<and>
   card (touched_set (wasWritten g')) = card (touched_set (wasWritten g)) + (n - i)"
proof (induction n i rnd g rule: doWrites_loop.induct)
  case (1 n i rnd g)
  show ?case
  proof (cases "i < n")
    case False
    with "1.prems" show ?thesis by (subst (asm) doWrites_loop.simps) auto
  next
    case True
    from "1.prems"(3) True obtain rnd1 g1 where
      b: "doWrites_body rnd g = Some (rnd1, g1)" and
      l: "doWrites_loop n (i + 1) rnd1 g1 = Some g'"
      by (subst (asm) doWrites_loop.simps) (auto split: option.splits)
    from doWrites_body_Some[OF "1.prems"(1) b] obtain k where
      s: "arrays_ok g1" "lastValsScan g1 = lastValsScan g" "changedTimes g1 = changedTimes g"
         "wasRead g1 = wasRead g" "savedRead g1 = savedRead g" "stderr_text g1 = stderr_text g"
         "k < VALS_SIZE" "\<not> wasWritten g ! k" "wasWritten g1 = (wasWritten g)[k := True]"
      by blast
    have "card (touched_set (wasWritten g1)) = Suc (card (touched_set (wasWritten g)))"
      using s(7-9) "1.prems"(1) by (simp add: touched_set_mark arrays_ok_def)
    moreover from "1.IH"[OF True b refl s(1) _ l] True
    have "arrays_ok g' \<and> lastValsScan g' = lastValsScan g1 \<and> changedTimes g' = changedTimes g1 \<and>
      wasRead g' = wasRead g1 \<and> savedRead g' = savedRead g1 \<and> stderr_text g' = stderr_text g1 \<and>
      card (touched_set (wasWritten g')) = card (touched_set (wasWritten g1)) + (n - (i + 1))" by simp
    ultimately show ?thesis using s(2-6) True by simp
  qed
qed

lemma doReads_n_Returns:
  assumes ok: "arrays_ok g" and r: "doReads_n n t g = Some (Returns g')"
  shows "arrays_ok g' \<and> vals g' = vals g \<and> wasWritten g' = wasWritten g \<and>
         card (touched_set (wasRead g')) = n"
proof -
  obtain rnd g0 where p: "doReads_prepare t g = (rnd, g0)" by (cases "doReads_prepare t g")
  from doReads_prepare_spec[OF ok, of t] p
  have g0: "arrays_ok g0" "wasRead g0 = replicate VALS_SIZE False" "vals g0 = vals g"
    "wasWritten g0 = wasWritten g" by simp_all
  from r p obtain g1 where l: "doReads_loop n 0 rnd g0 = Some (Returns g1)"
    and g': "g' = fprintf_stderr Reader_message g1"
    by (auto simp: doReads_n_def split: option.splits outcome.splits)
  from doReads_loop_card[OF g0(1) _ l] g0(2-4)
  show ?thesis by (auto simp: g' fprintf_stderr_def touched_set_clear arrays_ok_def)
qed

lemma doWrites_n_Some:
  assumes ok: "arrays_ok g" and r: "doWrites_n n t g = Some g'"
  shows "arrays_ok g' \<and> lastValsScan g' = lastValsScan g \<and> changedTimes g' = changedTimes g \<and>
         wasRead g' = wasRead g \<and> savedRead g' = savedRead g \<and>
         card (touched_set (wasWritten g')) = n"
proof -
  obtain rnd g0 where p: "doWrites_prepare t g = (rnd, g0)" by (cases "doWrites_prepare t g")
  from doWrites_prepare_spec[OF ok, of t] p
  have g0: "arrays_ok g0" "wasWritten g0 = replicate VALS_SIZE False"
    "lastValsScan g0 = lastValsScan g" "changedTimes g0 = changedTimes g"
    "wasRead g0 = wasRead g" "savedRead g0 = savedRead g" by simp_all
  from r p obtain g1 where l: "doWrites_loop n 0 rnd g0 = Some g1"
    and g': "g' = fprintf_stderr Writer_message g1"
    by (auto simp: doWrites_n_def split: option.splits)
  from doWrites_loop_card[OF g0(1) _ l] g0(2-6)
  show ?thesis by (auto simp: g' fprintf_stderr_def touched_set_clear arrays_ok_def)
qed

lemma resample_while_first_unmarked:
  "\<forall>j'<j. touched ! unat (fst (resample_steps j' random index)) \<Longrightarrow>
   \<not> touched ! unat (fst (resample_steps j random index)) \<Longrightarrow>
   resample_while touched random index = Some (resample_steps j random index)"
proof (induction j arbitrary: random index)
  case 0
  then show ?case by (subst resample_while.simps) simp
next
  case (Suc j)
  from Suc.prems(1) have m: "touched ! unat index" by fastforce
  have "\<forall>j'<j. touched ! unat (fst (resample_steps j' (snd (getRandomIndex random))
      (fst (getRandomIndex random))))"
  proof (intro allI impI)
    fix j' assume "j' < j"
    then have "Suc j' < Suc j" by simp
    with Suc.prems(1) have "touched ! unat (fst (resample_steps (Suc j') random index))" by blast
    then show "touched ! unat (fst (resample_steps j' (snd (getRandomIndex random))
      (fst (getRandomIndex random))))" by simp
  qed
  moreover have "\<not> touched ! unat (fst (resample_steps j (snd (getRandomIndex random))
      (fst (getRandomIndex random))))" using Suc.prems(2) by simp
  ultimately have "resample_while touched (snd (getRandomIndex random)) (fst (getRandomIndex random)) =
      Some (resample_steps j (snd (getRandomIndex random)) (fst (getRandomIndex random)))"
    by (rule Suc.IH)
  then show ?case using m by (subst resample_while.simps) simp
qed

lemma resample_while_is_first_unmarked:
  assumes "resample_while touched random index = Some y"
  shows "\<exists>j. y = resample_steps j random index \<and>
           (\<forall>j'<j. touched ! unat (fst (resample_steps j' random index))) \<and>
           \<not> touched ! unat (fst y)"
proof (rule resample_while.raw_induct
        [where P = "\<lambda>touched random index y. \<exists>j. y = resample_steps j random index \<and>
           (\<forall>j'<j. touched ! unat (fst (resample_steps j' random index))) \<and>
           \<not> touched ! unat (fst y)", OF _ assms])
  fix rec touched random index y
  assume IH: "\<And>touched random index y. rec touched random index = Some y \<Longrightarrow>
      \<exists>j. y = resample_steps j random index \<and>
           (\<forall>j'<j. touched ! unat (fst (resample_steps j' random index))) \<and>
           \<not> touched ! unat (fst y)"
    and st: "(if touched ! unat index
      then rec touched (snd (getRandomIndex random)) (fst (getRandomIndex random))
      else Some (index, random)) = Some y"
  show "\<exists>j. y = resample_steps j random index \<and>
           (\<forall>j'<j. touched ! unat (fst (resample_steps j' random index))) \<and>
           \<not> touched ! unat (fst y)"
  proof (cases "touched ! unat index")
    case False
    with st have "y = resample_steps 0 random index" by simp
    with False show ?thesis by (intro exI[of _ 0]) simp
  next
    case True
    with st have "rec touched (snd (getRandomIndex random)) (fst (getRandomIndex random)) = Some y"
      by simp
    from IH[OF this] obtain j where
      j: "y = resample_steps j (snd (getRandomIndex random)) (fst (getRandomIndex random))"
         "\<forall>j'<j. touched ! unat (fst (resample_steps j' (snd (getRandomIndex random))
            (fst (getRandomIndex random))))"
         "\<not> touched ! unat (fst y)" by blast
    have "\<forall>j'<Suc j. touched ! unat (fst (resample_steps j' random index))"
    proof (intro allI impI)
      fix j' assume a: "j' < Suc j"
      show "touched ! unat (fst (resample_steps j' random index))"
      proof (cases j')
        case 0
        then show ?thesis using True by simp
      next
        case (Suc k)
        with a j(2) show ?thesis by simp
      qed
    qed
    with j(1,3) show ?thesis by (intro exI[of _ "Suc j"]) simp
  qed
qed

lemma checkVals_loop_exit_frame:
  "checkVals_loop i g = Exits code g' \<Longrightarrow>
   code = 0 \<and> vals g' = vals g \<and> wasRead g' = wasRead g \<and> wasWritten g' = wasWritten g \<and>
   savedRead g' = savedRead g"
proof (induction i g rule: checkVals_loop.induct)
  case (1 i g)
  show ?case
  proof (cases "i < CHECK_FIRST_VALS")
    case False
    with "1.prems" show ?thesis by (subst (asm) checkVals_loop.simps) auto
  next
    case True
    note lt = True
    show ?thesis
    proof (cases "vals g ! i \<noteq> lastValsScan g ! i")
      case False
      have "checkVals_loop i g = checkVals_loop (i + 1) g"
        using lt False by (subst checkVals_loop.simps) simp
      with "1.IH"(2)[OF lt refl False] "1.prems" show ?thesis by simp
    next
      case True
      define g1 where "g1 = g\<lparr>changedTimes := (changedTimes g)[i := changedTimes g ! i + 1]\<rparr>"
      define g2 where "g2 = g1\<lparr>lastValsScan := (lastValsScan g1)[i := vals g ! i]\<rparr>"
      have unf: "checkVals_loop i g =
          (if 1 <s changedTimes g1 ! i then Exits 0 (fprintf_stderr UB_message g1)
           else checkVals_loop (i + 1) g2)"
        using lt True by (subst checkVals_loop.simps) (simp add: Let_def g1_def g2_def)
      show ?thesis
      proof (cases "1 <s changedTimes g1 ! i")
        case True
        with unf "1.prems" have "code = 0" "g' = fprintf_stderr UB_message g1" by simp_all
        then show ?thesis by (simp add: fprintf_stderr_def g1_def)
      next
        case False
        with unf "1.prems" have rec: "checkVals_loop (i + 1) g2 = Exits code g'" by simp
        from "1.IH"(1)[OF lt refl True g1_def False] rec
        show ?thesis by (simp add: g2_def g1_def)
      qed
    qed
  qed
qed

lemma checkVals_exit_frame:
  "checkVals g = Exits code g' \<Longrightarrow>
   code = 0 \<and> vals g' = vals g \<and> wasRead g' = wasRead g \<and> wasWritten g' = wasWritten g \<and>
   savedRead g' = savedRead g"
  unfolding checkVals_def by (rule checkVals_loop_exit_frame)

lemma doReads_body_reads_marked:
  assumes ok: "arrays_ok g" and r: "doReads_body i rnd g = Some out"
  shows "\<exists>k<VALS_SIZE. \<not> wasRead g ! k \<and>
           (\<forall>rnd1 g1. out = Returns (rnd1, g1) \<longrightarrow>
              wasRead g1 = (wasRead g)[k := True] \<and>
              savedRead g1 = (vals g ! k + vals g ! k - 1) + (savedRead g - 1 + vals g ! k) * vals g ! k) \<and>
           (\<forall>code g1. out = Exits code g1 \<longrightarrow>
              wasRead g1 = (wasRead g)[k := True] \<and>
              savedRead g1 = (vals g ! k + vals g ! k - 1) + (savedRead g - 1 + vals g ! k) * vals g ! k)"
proof -
  from r obtain idx r1 where rs:
    "resample_while (wasRead g) (snd (getRandomIndex rnd)) (fst (getRandomIndex rnd)) = Some (idx, r1)"
    by (auto simp: doReads_body_def split: option.splits)
  define g1 where "g1 = g\<lparr>wasRead := (wasRead g)[unat idx := True]\<rparr>"
  define g2 where "g2 = g1\<lparr>savedRead := (vals g1 ! unat idx + vals g1 ! unat idx - 1) +
                      (savedRead g1 - 1 + vals g1 ! unat idx) * vals g1 ! unat idx\<rparr>"
  define c where "c = (if i mod CHECK_EACH_ITER = 0 then checkVals g2 else Returns g2)"
  have body: "doReads_body i rnd g =
      (case c of Exits code g3 \<Rightarrow> Some (Exits code g3)
               | Returns g3 \<Rightarrow> Some (Returns (r1, g3)))"
    unfolding doReads_body_def c_def g2_def g1_def Let_def by (simp add: rs)
  have w2: "wasRead g2 = (wasRead g)[unat idx := True]" by (simp add: g2_def g1_def)
  have s2: "savedRead g2 = (vals g ! unat idx + vals g ! unat idx - 1) +
      (savedRead g - 1 + vals g ! unat idx) * vals g ! unat idx"
    by (simp add: g2_def g1_def)
  have b: "unat idx < VALS_SIZE" using resample_while_bound[OF rs getRandomIndex_bound] .
  have u: "\<not> wasRead g ! unat idx" using resample_while_unmarked[OF rs] .
  have fr: "wasRead g3 = wasRead g2 \<and> savedRead g3 = savedRead g2" if "c = Returns g3" for g3
  proof (cases "i mod CHECK_EACH_ITER = 0")
    case True
    with that have "checkVals g2 = Returns g3" by (simp add: c_def)
    from checkVals_frame[OF this] show ?thesis by simp
  next
    case False
    with that show ?thesis by (simp add: c_def)
  qed
  have fe: "wasRead g3 = wasRead g2 \<and> savedRead g3 = savedRead g2" if "c = Exits code g3" for code g3
  proof (cases "i mod CHECK_EACH_ITER = 0")
    case True
    with that have "checkVals g2 = Exits code g3" by (simp add: c_def)
    from checkVals_exit_frame[OF this] show ?thesis by simp
  next
    case False
    with that show ?thesis by (simp add: c_def)
  qed
  show ?thesis
  proof (intro exI[of _ "unat idx"] conjI allI impI)
    show "unat idx < VALS_SIZE" by (rule b)
    show "\<not> wasRead g ! unat idx" by (rule u)
  next
    fix rnd1 ga assume o: "out = Returns (rnd1, ga)"
    with r body have "c = Returns ga" by (cases c) simp_all
    from fr[OF this] w2 s2
    show "wasRead ga = (wasRead g)[unat idx := True]"
      "savedRead ga = (vals g ! unat idx + vals g ! unat idx - 1) +
          (savedRead g - 1 + vals g ! unat idx) * vals g ! unat idx"
      by simp_all
  next
    fix code ga assume o: "out = Exits code ga"
    with r body have "c = Exits code ga" by (cases c) simp_all
    from fe[OF this] w2 s2
    show "wasRead ga = (wasRead g)[unat idx := True]"
      "savedRead ga = (vals g ! unat idx + vals g ! unat idx - 1) +
          (savedRead g - 1 + vals g ! unat idx) * vals g ! unat idx"
      by simp_all
  qed
qed

lemma doReads_body_ends:
  assumes "\<forall>j'<j. wasRead g ! unat (fst (resample_steps j' (snd (getRandomIndex rnd))
             (fst (getRandomIndex rnd))))"
    and "\<not> wasRead g ! unat (fst (resample_steps j (snd (getRandomIndex rnd))
             (fst (getRandomIndex rnd))))"
  shows "doReads_body i rnd g \<noteq> None"
  using resample_while_first_unmarked[OF assms]
  by (simp add: doReads_body_def Let_def split: prod.splits outcome.splits)

lemma doWrites_body_ends:
  assumes "\<forall>j'<j. wasWritten g ! unat (fst (resample_steps j' (snd (getRandomIndex rnd))
             (fst (getRandomIndex rnd))))"
    and "\<not> wasWritten g ! unat (fst (resample_steps j (snd (getRandomIndex rnd))
             (fst (getRandomIndex rnd))))"
  shows "doWrites_body rnd g \<noteq> None"
  using resample_while_first_unmarked[OF assms]
  by (simp add: doWrites_body_def Let_def split: prod.splits)

text \<open>
  Claim C4. The resampling loop ends with the first candidate that is not marked, when
  there is one, and with no other index; so a pass of either loop body returns whenever a
  later candidate is unmarked. One pass of the reader's loop body, however it ends, has
  marked one index that was not marked before, changed no other flag, and has folded the
  slot at that same index into \<^verbatim>\<open>savedRead\<close>; one pass of the writer's loop body has marked
  one index that was not marked before and has written the shared array at that index
  only. Passes \<open>i\<close> to \<open>n\<close> of a loop that returns add \<open>n - i\<close> marked indices. When the
  reader's task returns after \<open>n\<close> passes, \<open>n\<close> indices are marked in \<^verbatim>\<open>wasRead\<close>; when the
  writer's task returns after \<open>m\<close> passes, \<open>m\<close> indices are marked in \<^verbatim>\<open>wasWritten\<close>; and
  neither number exceeds the array length. (The source has \<open>n = READER_ITERS\<close> and
  \<open>m = WRITER_ITERS\<close>.)
\<close>

theorem no_index_twice:
  assumes ok: "arrays_ok g"
  shows "((\<forall>j'<j. touched ! unat (fst (resample_steps j' random index))) \<and>
            \<not> touched ! unat (fst (resample_steps j random index)) \<longrightarrow>
            resample_while touched random index = Some (resample_steps j random index)) \<and>
         (\<forall>y. resample_while touched random index = Some y \<longrightarrow>
            \<not> touched ! unat (fst y) \<and>
            (\<exists>j. y = resample_steps j random index \<and>
                 (\<forall>j'<j. touched ! unat (fst (resample_steps j' random index))))) \<and>
         (\<forall>i rnd out. doReads_body i rnd g = Some out \<longrightarrow>
            (\<exists>k<VALS_SIZE. \<not> wasRead g ! k \<and>
               (\<forall>rnd1 g1. out = Returns (rnd1, g1) \<longrightarrow>
                  wasRead g1 = (wasRead g)[k := True] \<and>
                  savedRead g1 =
                    (vals g ! k + vals g ! k - 1) + (savedRead g - 1 + vals g ! k) * vals g ! k) \<and>
               (\<forall>code g1. out = Exits code g1 \<longrightarrow>
                  wasRead g1 = (wasRead g)[k := True] \<and>
                  savedRead g1 =
                    (vals g ! k + vals g ! k - 1) + (savedRead g - 1 + vals g ! k) * vals g ! k))) \<and>
         (\<forall>rnd rnd1 g1. doWrites_body rnd g = Some (rnd1, g1) \<longrightarrow>
            (\<exists>k<VALS_SIZE. \<not> wasWritten g ! k \<and> wasWritten g1 = (wasWritten g)[k := True] \<and>
               (\<exists>r. vals g1 = (vals g)[k := r]))) \<and>
         (\<forall>i rnd.
            (\<forall>j'<j. wasRead g ! unat (fst (resample_steps j' (snd (getRandomIndex rnd))
                        (fst (getRandomIndex rnd))))) \<and>
            \<not> wasRead g ! unat (fst (resample_steps j (snd (getRandomIndex rnd))
                        (fst (getRandomIndex rnd)))) \<longrightarrow>
            doReads_body i rnd g \<noteq> None) \<and>
         (\<forall>rnd.
            (\<forall>j'<j. wasWritten g ! unat (fst (resample_steps j' (snd (getRandomIndex rnd))
                        (fst (getRandomIndex rnd))))) \<and>
            \<not> wasWritten g ! unat (fst (resample_steps j (snd (getRandomIndex rnd))
                        (fst (getRandomIndex rnd)))) \<longrightarrow>
            doWrites_body rnd g \<noteq> None) \<and>
         (\<forall>i rnd g1. i \<le> n \<and> doReads_loop n i rnd g = Some (Returns g1) \<longrightarrow>
            card (touched_set (wasRead g1)) = card (touched_set (wasRead g)) + (n - i)) \<and>
         (\<forall>i rnd g1. i \<le> m \<and> doWrites_loop m i rnd g = Some g1 \<longrightarrow>
            card (touched_set (wasWritten g1)) = card (touched_set (wasWritten g)) + (m - i)) \<and>
         (\<forall>g1. doReads_n n t g = Some (Returns g1) \<longrightarrow>
            card (touched_set (wasRead g1)) = n \<and> n \<le> VALS_SIZE) \<and>
         (\<forall>g1. doWrites_n m t g = Some g1 \<longrightarrow>
            card (touched_set (wasWritten g1)) = m \<and> m \<le> VALS_SIZE)"
proof (intro conjI allI impI)
  assume "(\<forall>j'<j. touched ! unat (fst (resample_steps j' random index))) \<and>
            \<not> touched ! unat (fst (resample_steps j random index))"
  then show "resample_while touched random index = Some (resample_steps j random index)"
    using resample_while_first_unmarked by blast
next
  fix y assume a: "resample_while touched random index = Some y"
  from resample_while_is_first_unmarked[OF a]
  show "\<not> touched ! unat (fst y)"
    "\<exists>j. y = resample_steps j random index \<and>
         (\<forall>j'<j. touched ! unat (fst (resample_steps j' random index)))"
    by blast+
next
  fix i rnd out assume "doReads_body i rnd g = Some out"
  from doReads_body_reads_marked[OF ok this]
  show "\<exists>k<VALS_SIZE. \<not> wasRead g ! k \<and>
               (\<forall>rnd1 g1. out = Returns (rnd1, g1) \<longrightarrow>
                  wasRead g1 = (wasRead g)[k := True] \<and>
                  savedRead g1 =
                    (vals g ! k + vals g ! k - 1) + (savedRead g - 1 + vals g ! k) * vals g ! k) \<and>
               (\<forall>code g1. out = Exits code g1 \<longrightarrow>
                  wasRead g1 = (wasRead g)[k := True] \<and>
                  savedRead g1 =
                    (vals g ! k + vals g ! k - 1) + (savedRead g - 1 + vals g ! k) * vals g ! k)" .
next
  fix rnd rnd1 g1 assume "doWrites_body rnd g = Some (rnd1, g1)"
  from doWrites_body_Some[OF ok this]
  show "\<exists>k<VALS_SIZE. \<not> wasWritten g ! k \<and> wasWritten g1 = (wasWritten g)[k := True] \<and>
               (\<exists>r. vals g1 = (vals g)[k := r])" by simp
next
  fix i rnd
  assume "(\<forall>j'<j. wasRead g ! unat (fst (resample_steps j' (snd (getRandomIndex rnd))
                        (fst (getRandomIndex rnd))))) \<and>
            \<not> wasRead g ! unat (fst (resample_steps j (snd (getRandomIndex rnd))
                        (fst (getRandomIndex rnd))))"
  then show "doReads_body i rnd g \<noteq> None" using doReads_body_ends by blast
next
  fix rnd
  assume "(\<forall>j'<j. wasWritten g ! unat (fst (resample_steps j' (snd (getRandomIndex rnd))
                        (fst (getRandomIndex rnd))))) \<and>
            \<not> wasWritten g ! unat (fst (resample_steps j (snd (getRandomIndex rnd))
                        (fst (getRandomIndex rnd))))"
  then show "doWrites_body rnd g \<noteq> None" using doWrites_body_ends by blast
next
  fix i rnd g1 assume "i \<le> n \<and> doReads_loop n i rnd g = Some (Returns g1)"
  then show "card (touched_set (wasRead g1)) = card (touched_set (wasRead g)) + (n - i)"
    using doReads_loop_card[OF ok] by blast
next
  fix i rnd g1 assume "i \<le> m \<and> doWrites_loop m i rnd g = Some g1"
  then show "card (touched_set (wasWritten g1)) = card (touched_set (wasWritten g)) + (m - i)"
    using doWrites_loop_card[OF ok] by blast
next
  fix g1 assume a: "doReads_n n t g = Some (Returns g1)"
  from doReads_n_Returns[OF ok a]
  show c: "card (touched_set (wasRead g1)) = n" by simp
  from doReads_n_Returns[OF ok a] card_touched_set_le[of "wasRead g1"]
  show "n \<le> VALS_SIZE" by (simp add: arrays_ok_def)
next
  fix g1 assume a: "doWrites_n m t g = Some g1"
  from doWrites_n_Some[OF ok a]
  show c: "card (touched_set (wasWritten g1)) = m" by simp
  from doWrites_n_Some[OF ok a] card_touched_set_le[of "wasWritten g1"]
  show "m \<le> VALS_SIZE" by (simp add: arrays_ok_def)
qed

lemma doReads_body_quiet:
  assumes q: "lastValsScan g = vals g" and r: "doReads_body i rnd g = Some out"
  shows "\<exists>rnd1 g1. out = Returns (rnd1, g1) \<and> lastValsScan g1 = vals g1 \<and>
           changedTimes g1 = changedTimes g"
proof -
  from r obtain idx r1 where rs:
    "resample_while (wasRead g) (snd (getRandomIndex rnd)) (fst (getRandomIndex rnd)) = Some (idx, r1)"
    by (auto simp: doReads_body_def split: option.splits)
  define g1 where "g1 = g\<lparr>wasRead := (wasRead g)[unat idx := True]\<rparr>"
  define g2 where "g2 = g1\<lparr>savedRead := (vals g1 ! unat idx + vals g1 ! unat idx - 1) +
                      (savedRead g1 - 1 + vals g1 ! unat idx) * vals g1 ! unat idx\<rparr>"
  have q2: "lastValsScan g2 = vals g2" using q by (simp add: g2_def g1_def)
  have c: "(if i mod CHECK_EACH_ITER = 0 then checkVals g2 else Returns g2) = Returns g2"
    using checkVals_quiet[OF q2] by simp
  have "doReads_body i rnd g =
      (case (if i mod CHECK_EACH_ITER = 0 then checkVals g2 else Returns g2) of
         Exits code g3 \<Rightarrow> Some (Exits code g3)
       | Returns g3 \<Rightarrow> Some (Returns (r1, g3)))"
    unfolding doReads_body_def g2_def g1_def Let_def by (simp add: rs)
  with r have "out = Returns (r1, g2)" by (simp only: c outcome.case option.inject)
  then show ?thesis using q2 by (simp add: g2_def g1_def)
qed

lemma doReads_loop_quiet:
  "lastValsScan g = vals g \<Longrightarrow> doReads_loop n i rnd g = Some out \<Longrightarrow>
   \<exists>g1. out = Returns g1 \<and> lastValsScan g1 = vals g1 \<and> changedTimes g1 = changedTimes g"
proof (induction n i rnd g rule: doReads_loop.induct)
  case (1 n i rnd g)
  show ?case
  proof (cases "i < n")
    case False
    with "1.prems" show ?thesis by (subst (asm) doReads_loop.simps) auto
  next
    case True
    from "1.prems"(2) True obtain b where b: "doReads_body i rnd g = Some b"
      by (subst (asm) doReads_loop.simps) (auto split: option.splits)
    from doReads_body_quiet[OF "1.prems"(1) b] obtain rnd1 g1 where
      s: "b = Returns (rnd1, g1)" "lastValsScan g1 = vals g1" "changedTimes g1 = changedTimes g"
      by blast
    from "1.prems"(2) True b s(1) have l: "doReads_loop n (i + 1) rnd1 g1 = Some out"
      by (subst (asm) doReads_loop.simps) simp
    from "1.IH"[OF True b[unfolded s(1)] refl refl s(2) l] s(3) show ?thesis by simp
  qed
qed

lemma doReads_n_quiet:
  assumes ok: "arrays_ok g" and r: "doReads_n n t g = Some out"
  shows "\<exists>g1. out = Returns g1 \<and> changedTimes g1 = replicate VALS_SIZE 0"
proof -
  obtain rnd g0 where p: "doReads_prepare t g = (rnd, g0)" by (cases "doReads_prepare t g")
  from doReads_prepare_spec[OF ok, of t] p
  have g0: "lastValsScan g0 = vals g0" "changedTimes g0 = replicate VALS_SIZE 0" by simp_all
  from r p obtain o1 where l: "doReads_loop n 0 rnd g0 = Some o1"
    by (auto simp: doReads_n_def split: option.splits)
  from doReads_loop_quiet[OF g0(1) l] obtain g1 where
    g1: "o1 = Returns g1" "changedTimes g1 = changedTimes g0" by blast
  from r p l g1(1) have "out = Returns (fprintf_stderr Reader_message g1)"
    by (simp add: doReads_n_def)
  then show ?thesis using g1(2) g0(2) by (simp add: fprintf_stderr_def)
qed

lemma counters_zero: "changedTimes g = replicate n 0 \<Longrightarrow> counters_0_or_1 g"
  by (simp add: counters_0_or_1_def)

lemma doReads_n_first:
  assumes ok: "arrays_ok g"
  shows "\<exists>g1. doReads_n 1 t g = Some (Returns g1)"
proof -
  obtain rnd g0 where p: "doReads_prepare t g = (rnd, g0)" by (cases "doReads_prepare t g")
  from doReads_prepare_spec[OF ok, of t] p
  have g0: "lastValsScan g0 = vals g0" "wasRead g0 = replicate VALS_SIZE False" by simp_all
  have "\<not> wasRead g0 ! unat (fst (getRandomIndex rnd))"
    using getRandomIndex_bound[of rnd] by (simp add: g0(2))
  then have "resample_while (wasRead g0) (snd (getRandomIndex rnd)) (fst (getRandomIndex rnd)) =
      Some (fst (getRandomIndex rnd), snd (getRandomIndex rnd))"
    by (rule resample_while_now)
  then have "\<exists>b. doReads_body 0 rnd g0 = Some b"
    by (auto simp: doReads_body_def Let_def split: outcome.splits prod.splits)
  then obtain b where b: "doReads_body 0 rnd g0 = Some b" by blast
  from doReads_body_quiet[OF g0(1) b] obtain rnd1 g1 where s: "b = Returns (rnd1, g1)" by blast
  have "doReads_loop 1 0 rnd g0 = Some (Returns g1)"
    using b s by (subst doReads_loop.simps, simp, subst doReads_loop.simps, simp)
  then show ?thesis using p by (simp add: doReads_n_def)
qed

lemma doWrites_n_first:
  assumes ok: "arrays_ok g"
  shows "\<exists>g1. doWrites_n 1 t g = Some g1"
proof -
  obtain rnd g0 where p: "doWrites_prepare t g = (rnd, g0)" by (cases "doWrites_prepare t g")
  from doWrites_prepare_spec[OF ok, of t] p
  have g0: "wasWritten g0 = replicate VALS_SIZE False" by simp
  have "\<not> wasWritten g0 ! unat (fst (getRandomIndex rnd))"
    using getRandomIndex_bound[of rnd] by (simp add: g0)
  then have "resample_while (wasWritten g0) (snd (getRandomIndex rnd)) (fst (getRandomIndex rnd)) =
      Some (fst (getRandomIndex rnd), snd (getRandomIndex rnd))"
    by (rule resample_while_now)
  then have "\<exists>b. doWrites_body rnd g0 = Some b"
    by (auto simp: doWrites_body_def Let_def split_beta)
  then obtain rnd1 g1 where b: "doWrites_body rnd g0 = Some (rnd1, g1)" by auto
  have "doWrites_loop 1 0 rnd g0 = Some g1"
    using b by (subst doWrites_loop.simps, simp, subst doWrites_loop.simps, simp)
  then show ?thesis using p by (simp add: doWrites_n_def)
qed

lemma nextInt_plain:
  assumes "0 \<le> k" "k < 227" "b ! nat k = 0" "b ! nat (k + 1) = 0"
  shows "nextInt \<lparr>m_buffer = b, m_index = k\<rparr> =
     (swizzle (b ! nat (k + 397)),
      \<lparr>m_buffer = b[nat k := b ! nat (k + 397)], m_index = k + 1\<rparr>)"
  using assms
  by (simp add: nextInt_def twist_r_def twist_s_def nextInt_i2_def nextInt_j_def Let_def
      MT_LEN_def MT_IA_def)

lemma getRandomIndex_plain:
  assumes "0 \<le> k" "k < 227" "b ! nat k = 0" "b ! nat (k + 1) = 0"
  shows "getRandomIndex \<lparr>m_buffer = b, m_index = k\<rparr> =
     (swizzle (b ! nat (k + 397)) mod of_nat VALS_SIZE,
      \<lparr>m_buffer = b[nat k := b ! nat (k + 397)], m_index = k + 1\<rparr>)"
  by (simp add: getRandomIndex_def nextInt_plain[OF assms])

lemma swizzle_values: "swizzle 0x57633ac7 = 100000" "swizzle 0x12dd9bb3 = 0xffffffff" "swizzle 0 = 0"
  by (simp_all add: swizzle_def Let_def)

lemma index_values: "(100000 :: u32) mod of_nat VALS_SIZE = 0"
  "(0xffffffff :: u32) mod of_nat VALS_SIZE = 67295" "(0 :: u32) mod of_nat VALS_SIZE = 0"
  by (simp_all add: VALS_SIZE_def)

lemma colliding_random_eq: "colliding_random = \<lparr>m_buffer = colliding_buffer, m_index = 2\<rparr>"
  by (simp add: colliding_buffer_def colliding_random_def)

lemma colliding_buffer_facts:
  "length colliding_buffer = 624"
  "colliding_buffer ! 2 = 0" "colliding_buffer ! 3 = 0" "colliding_buffer ! 4 = 0"
  "colliding_buffer ! 5 = 0" "colliding_buffer ! 6 = 0" "colliding_buffer ! 7 = 0"
  "colliding_buffer ! 399 = 0x57633ac7" "colliding_buffer ! 400 = 0x57633ac7"
  "colliding_buffer ! 401 = 0x57633ac7" "colliding_buffer ! 402 = 0x12dd9bb3"
  "colliding_buffer ! 403 = 0"
  by (simp_all add: colliding_buffer_def colliding_random_def MT_LEN_nat)

lemma colliding_steps:
  "getRandomIndex \<lparr>m_buffer = colliding_buffer, m_index = 2\<rparr> =
     (0, \<lparr>m_buffer = colliding_buffer[2 := 0x57633ac7], m_index = 3\<rparr>)"
  "getRandomIndex \<lparr>m_buffer = colliding_buffer[2 := 0x57633ac7], m_index = 3\<rparr> =
     (0, \<lparr>m_buffer = colliding_buffer[2 := 0x57633ac7, 3 := 0x57633ac7], m_index = 4\<rparr>)"
  "getRandomIndex \<lparr>m_buffer = colliding_buffer[2 := 0x57633ac7, 3 := 0x57633ac7], m_index = 4\<rparr> =
     (0, \<lparr>m_buffer = colliding_buffer[2 := 0x57633ac7, 3 := 0x57633ac7, 4 := 0x57633ac7],
         m_index = 5\<rparr>)"
  "getRandomIndex
     \<lparr>m_buffer = colliding_buffer[2 := 0x57633ac7, 3 := 0x57633ac7, 4 := 0x57633ac7],
      m_index = 5\<rparr> =
     (67295,
      \<lparr>m_buffer = colliding_buffer[2 := 0x57633ac7, 3 := 0x57633ac7, 4 := 0x57633ac7,
                                    5 := 0x12dd9bb3],
       m_index = 6\<rparr>)"
  by (simp_all add: getRandomIndex_plain colliding_buffer_facts swizzle_values index_values)

lemma colliding_values:
  "nextInt \<lparr>m_buffer = colliding_buffer[2 := 0x57633ac7], m_index = 3\<rparr> =
     (100000, \<lparr>m_buffer = colliding_buffer[2 := 0x57633ac7, 3 := 0x57633ac7], m_index = 4\<rparr>)"
  "nextInt
     \<lparr>m_buffer = colliding_buffer[2 := 0x57633ac7, 3 := 0x57633ac7, 4 := 0x57633ac7,
                                   5 := 0x12dd9bb3],
      m_index = 6\<rparr> =
     (0,
      \<lparr>m_buffer = colliding_buffer[2 := 0x57633ac7, 3 := 0x57633ac7, 4 := 0x57633ac7,
                                    5 := 0x12dd9bb3, 6 := 0],
       m_index = 7\<rparr>)"
  by (simp_all add: nextInt_plain colliding_buffer_facts swizzle_values)

lemma resample_while_again:
  "touched ! unat index \<Longrightarrow>
   resample_while touched random index =
     resample_while touched (snd (getRandomIndex random)) (fst (getRandomIndex random))"
  by (subst resample_while.simps) simp

lemma initial_fields:
  "wasRead initial_globals = replicate VALS_SIZE False"
  "wasWritten initial_globals = replicate VALS_SIZE False"
  "vals initial_globals = replicate VALS_SIZE 0"
  "lastValsScan initial_globals = replicate VALS_SIZE 0"
  by (simp_all add: initial_globals_def)

lemma VALS_SIZE_gt: "0 < VALS_SIZE" "67295 < VALS_SIZE"
  by (simp_all add: VALS_SIZE_def)

lemma reader_two_passes:
  "\<exists>g1. doReads_loop 2 0 colliding_random initial_globals = Some (Returns g1) \<and>
      wasRead g1 = (wasRead initial_globals)[0 := True, 67295 := True]"
  apply (subst doReads_loop.simps)
  apply (simp add: doReads_body_def colliding_random_eq colliding_steps resample_while_now
      initial_fields VALS_SIZE_gt CHECK_EACH_ITER_def checkVals_quiet Let_def)
  apply (subst doReads_loop.simps)
  apply (simp add: doReads_body_def colliding_steps resample_while_now resample_while_again
      initial_fields VALS_SIZE_gt CHECK_EACH_ITER_def Let_def)
  apply (subst doReads_loop.simps)
  apply simp
  done

lemma writer_two_passes:
  "\<exists>g1. doWrites_loop 2 0 colliding_random initial_globals = Some g1 \<and>
      wasWritten g1 = (wasWritten initial_globals)[0 := True, 67295 := True] \<and>
      vals g1 = (vals initial_globals)[0 := 100000, 67295 := 0]"
  apply (subst doWrites_loop.simps)
  apply (simp add: doWrites_body_def colliding_random_eq colliding_steps colliding_values
      resample_while_now initial_fields VALS_SIZE_gt Let_def)
  apply (subst doWrites_loop.simps)
  apply (simp add: doWrites_body_def colliding_steps colliding_values resample_while_now
      resample_while_again initial_fields VALS_SIZE_gt Let_def)
  apply (subst doWrites_loop.simps)
  apply simp
  done

lemma arrays_ok_marked: "arrays_ok marked_globals"
  by (simp add: marked_globals_def initial_globals_def arrays_ok_def)

lemma marked_fields:
  "wasRead marked_globals = (replicate VALS_SIZE False)[0 := True]"
  "wasWritten marked_globals = (replicate VALS_SIZE False)[0 := True]"
  "vals marked_globals = (replicate VALS_SIZE 0)[67295 := 3]"
  "lastValsScan marked_globals = (replicate VALS_SIZE 0)[67295 := 3]"
  "savedRead marked_globals = 0"
  by (simp_all add: marked_globals_def initial_globals_def)

lemma colliding_candidates:
  "fst (resample_steps 0 colliding_random 0) = 0"
  "fst (resample_steps (Suc 0) colliding_random 0) = 0"
  "fst (resample_steps (Suc (Suc 0)) colliding_random 0) = 0"
  "fst (resample_steps (Suc (Suc (Suc 0))) colliding_random 0) = 0"
  "fst (resample_steps (Suc (Suc (Suc (Suc 0)))) colliding_random 0) = 67295"
  by (simp_all add: colliding_random_eq colliding_steps)

lemma colliding_first_unmarked:
  "(\<forall>j'<Suc (Suc (Suc (Suc 0))).
       wasRead marked_globals ! unat (fst (resample_steps j' colliding_random 0))) \<and>
   \<not> wasRead marked_globals ! unat (fst (resample_steps (Suc (Suc (Suc (Suc 0)))) colliding_random 0))"
  by (simp add: All_less_Suc colliding_random_eq colliding_steps marked_fields VALS_SIZE_gt)

lemma checkVals_fatal_first:
  assumes "arrays_ok g" and "slot_fatal g 0"
  shows "checkVals g = Exits 0 (fprintf_stderr UB_message (count_change 0 g))"
proof -
  have "0 < CHECK_FIRST_VALS" by (simp add: CHECK_FIRST_VALS_def VALS_SIZE_def)
  from checkVals_loop_exits[OF assms(1) _ this assms(2)]
  show ?thesis by (simp add: checkVals_def scan_slots_empty)
qed

lemma reader_pass_resamples:
  "\<exists>rnd1 g1. doReads_body 1 colliding_random marked_globals = Some (Returns (rnd1, g1)) \<and>
      wasRead g1 = (wasRead marked_globals)[67295 := True] \<and> savedRead g1 = 11"
  by (simp add: doReads_body_def colliding_random_eq colliding_steps resample_while_now
      resample_while_again marked_fields VALS_SIZE_gt CHECK_EACH_ITER_def Let_def)

lemma writer_pass_resamples:
  "\<exists>rnd1 g1. doWrites_body colliding_random marked_globals = Some (rnd1, g1) \<and>
      wasWritten g1 = (wasWritten marked_globals)[67295 := True] \<and>
      vals g1 = (vals marked_globals)[67295 := 0]"
  by (simp add: doWrites_body_def colliding_random_eq colliding_steps colliding_values
      resample_while_now resample_while_again marked_fields VALS_SIZE_gt Let_def)

lemma reader_pass_exits:
  "\<exists>g1. doReads_body 0 colliding_random revisited_globals = Some (Exits 0 g1) \<and>
      wasRead g1 = (wasRead revisited_globals)[0 := True] \<and> savedRead g1 = 55"
proof -
  define g2 where "g2 = revisited_globals\<lparr>wasRead := (wasRead revisited_globals)[0 := True],
      savedRead := 55\<rparr>"
  have ok: "arrays_ok g2"
    by (simp add: g2_def revisited_globals_def initial_globals_def arrays_ok_def)
  have f: "slot_fatal g2 0"
    by (simp add: g2_def slot_fatal_def slot_changed_def revisited_globals_def initial_globals_def
        VALS_SIZE_def one_sless_two)
  have b: "doReads_body 0 colliding_random revisited_globals =
      (case checkVals g2 of Exits code g3 \<Rightarrow> Some (Exits code g3)
         | Returns g3 \<Rightarrow> Some (Returns (\<lparr>m_buffer = colliding_buffer[2 := 0x57633ac7], m_index = 3\<rparr>, g3)))"
    by (simp add: doReads_body_def colliding_random_eq colliding_steps resample_while_now
        revisited_globals_def initial_globals_def VALS_SIZE_def CHECK_EACH_ITER_def Let_def g2_def)
  show ?thesis unfolding b checkVals_fatal_first[OF ok f]
    by (simp add: fprintf_stderr_def count_change_def g2_def)
qed

theorem no_index_twice_witness:
  "arrays_ok initial_globals \<and> arrays_ok marked_globals \<and> arrays_ok revisited_globals \<and>
   (\<exists>random1. resample_while (wasRead marked_globals) colliding_random 0 = Some (67295, random1)) \<and>
   (\<exists>rnd1 g1. doReads_body 1 colliding_random marked_globals = Some (Returns (rnd1, g1)) \<and>
      \<not> wasRead marked_globals ! 67295 \<and>
      wasRead g1 = (wasRead marked_globals)[67295 := True] \<and> savedRead g1 = 11) \<and>
   (\<exists>g1. doReads_body 0 colliding_random revisited_globals = Some (Exits 0 g1) \<and>
      wasRead g1 = (wasRead revisited_globals)[0 := True] \<and> savedRead g1 = 55) \<and>
   (\<exists>rnd1 g1. doWrites_body colliding_random marked_globals = Some (rnd1, g1) \<and>
      wasWritten g1 = (wasWritten marked_globals)[67295 := True] \<and>
      vals g1 = (vals marked_globals)[67295 := 0]) \<and>
   (\<exists>g1. doReads_loop 2 0 colliding_random initial_globals = Some (Returns g1) \<and>
      wasRead g1 = (wasRead initial_globals)[0 := True, 67295 := True] \<and>
      card (touched_set (wasRead g1)) = 2) \<and>
   (\<exists>g1. doWrites_loop 2 0 colliding_random initial_globals = Some g1 \<and>
      wasWritten g1 = (wasWritten initial_globals)[0 := True, 67295 := True] \<and>
      card (touched_set (wasWritten g1)) = 2) \<and>
   (\<exists>g1. doReads_n 1 0 initial_globals = Some (Returns g1) \<and> card (touched_set (wasRead g1)) = 1) \<and>
   (\<exists>g1. doWrites_n 1 0 initial_globals = Some g1 \<and> card (touched_set (wasWritten g1)) = 1)"
proof -
  have okr: "arrays_ok revisited_globals"
    by (simp add: revisited_globals_def initial_globals_def arrays_ok_def)
  note ti = no_index_twice [OF arrays_ok_initial, where n = 2 and m = 2]
  note t1 = no_index_twice [OF arrays_ok_initial, where n = 1 and m = 1 and t = 0]
  note tm = no_index_twice [OF arrays_ok_marked, where touched = "wasRead marked_globals"
      and random = colliding_random and index = 0 and j = "Suc (Suc (Suc (Suc 0)))"]
  from tm colliding_first_unmarked
  have "resample_while (wasRead marked_globals) colliding_random 0 =
      Some (resample_steps (Suc (Suc (Suc (Suc 0)))) colliding_random 0)" by blast
  moreover obtain r where "resample_steps (Suc (Suc (Suc (Suc 0)))) colliding_random 0 = (67295, r)"
    using colliding_candidates(5) by (metis prod.collapse)
  ultimately have A: "\<exists>random1. resample_while (wasRead marked_globals) colliding_random 0 =
      Some (67295, random1)"
    by (simp only: exI)
  have u: "\<not> wasRead marked_globals ! 67295" by (simp add: marked_fields VALS_SIZE_gt)
  obtain g1 where r2: "doReads_loop 2 0 colliding_random initial_globals = Some (Returns g1)"
      "wasRead g1 = (wasRead initial_globals)[0 := True, 67295 := True]"
    using reader_two_passes by blast
  from ti have "0 \<le> (2::nat) \<and> doReads_loop 2 0 colliding_random initial_globals = Some (Returns g1) \<longrightarrow>
      card (touched_set (wasRead g1)) = card (touched_set (wasRead initial_globals)) + (2 - 0)"
    by blast
  with r2(1) have c2: "card (touched_set (wasRead g1)) = 2"
    by (simp add: initial_fields touched_set_clear)
  obtain g2 where w2: "doWrites_loop 2 0 colliding_random initial_globals = Some g2"
      "wasWritten g2 = (wasWritten initial_globals)[0 := True, 67295 := True]"
    using writer_two_passes by blast
  from ti have "0 \<le> (2::nat) \<and> doWrites_loop 2 0 colliding_random initial_globals = Some g2 \<longrightarrow>
      card (touched_set (wasWritten g2)) = card (touched_set (wasWritten initial_globals)) + (2 - 0)"
    by blast
  with w2(1) have d2: "card (touched_set (wasWritten g2)) = 2"
    by (simp add: initial_fields touched_set_clear)
  obtain g3 where r1: "doReads_n 1 0 initial_globals = Some (Returns g3)"
    using doReads_n_first[OF arrays_ok_initial] by blast
  obtain g4 where w1: "doWrites_n 1 0 initial_globals = Some g4"
    using doWrites_n_first[OF arrays_ok_initial] by blast
  from t1 r1 have C: "card (touched_set (wasRead g3)) = 1" by blast
  from t1 w1 have D: "card (touched_set (wasWritten g4)) = 1" by blast
  show ?thesis
    using A u reader_pass_resamples reader_pass_exits writer_pass_resamples
      r2 c2 w2 d2 r1 C w1 D arrays_ok_initial arrays_ok_marked okr
    by blast
qed

lemma not_one_sless_one: "\<not> (1::32 word) <s 0 + 1"
  by (simp add: word_sless_alt)

lemma checkVals_first_scan:
  assumes ok: "arrays_ok g" and z: "changedTimes g = replicate VALS_SIZE 0"
  shows "\<exists>g'. checkVals g = Returns g' \<and> arrays_ok g' \<and> lastValsScan g' = vals g' \<and>
           counters_0_or_1 g' \<and> wasRead g' = wasRead g \<and> wasWritten g' = wasWritten g \<and>
           vals g' = vals g"
proof -
  have nf: "\<forall>j. 0 \<le> j \<and> j < CHECK_FIRST_VALS \<longrightarrow> \<not> slot_fatal g j"
    using z not_one_sless_one by (simp add: slot_fatal_def CHECK_FIRST_VALS_def)
  define g' where "g' = scan_slots 0 CHECK_FIRST_VALS g"
  have r: "checkVals g = Returns g'"
    using checkVals_loop_returns[OF ok nf] by (simp add: checkVals_def g'_def)
  have ok': "arrays_ok g'" unfolding g'_def using ok by (rule scan_slots_arrays_ok)
  have "lastValsScan g' = vals g'"
    using ok ok'
    by (intro nth_equalityI)
       (simp_all add: g'_def scan_slots_fields scan_slots_snapshot arrays_ok_def CHECK_FIRST_VALS_def)
  moreover have "counters_0_or_1 g'"
    unfolding counters_0_or_1_def
  proof
    fix c assume "c \<in> set (changedTimes g')"
    then obtain j where j: "j < length (changedTimes g')" "c = changedTimes g' ! j"
      by (auto simp: in_set_conv_nth)
    then have jK: "j < VALS_SIZE" using ok' by (simp add: arrays_ok_def)
    then have "changedTimes g' ! j = (if slot_changed g j then changedTimes g ! j + 1 else changedTimes g ! j)"
      using ok by (simp add: g'_def scan_slots_counter arrays_ok_def CHECK_FIRST_VALS_def)
    then show "c = 0 \<or> c = 1" using j(2) z jK by (simp split: if_splits)
  qed
  moreover have "wasRead g' = wasRead g \<and> wasWritten g' = wasWritten g \<and> vals g' = vals g"
    by (simp add: g'_def scan_slots_fields)
  ultimately show ?thesis using r ok' by simp
qed

lemma doReads_loop_quiet_counters:
  assumes "lastValsScan g = vals g" and "counters_0_or_1 g" and "doReads_loop n i rnd g = Some out"
  shows "no_anomaly out"
  using doReads_loop_quiet[OF assms(1,3)] assms(2)
  by (auto simp: no_anomaly_def counters_0_or_1_def)

lemma doReads_loop_from_zero:
  assumes ok: "arrays_ok g" and z: "changedTimes g = replicate VALS_SIZE 0"
    and r: "doReads_loop n 0 rnd g = Some out"
  shows "no_anomaly out"
proof (cases "0 < n")
  case False
  with r have "out = Returns g" by (subst (asm) doReads_loop.simps) simp
  then show ?thesis using z by (simp add: no_anomaly_def counters_zero)
next
  case True
  from r True obtain b where b: "doReads_body 0 rnd g = Some b"
    by (subst (asm) doReads_loop.simps) (auto split: option.splits)
  then obtain idx r1 where rs:
    "resample_while (wasRead g) (snd (getRandomIndex rnd)) (fst (getRandomIndex rnd)) = Some (idx, r1)"
    by (auto simp: doReads_body_def split: option.splits)
  define g1 where "g1 = g\<lparr>wasRead := (wasRead g)[unat idx := True]\<rparr>"
  define g2 where "g2 = g1\<lparr>savedRead := (vals g1 ! unat idx + vals g1 ! unat idx - 1) +
                      (savedRead g1 - 1 + vals g1 ! unat idx) * vals g1 ! unat idx\<rparr>"
  have ok2: "arrays_ok g2" using ok by (simp add: g2_def g1_def arrays_ok_def)
  have z2: "changedTimes g2 = replicate VALS_SIZE 0" using z by (simp add: g2_def g1_def)
  from checkVals_first_scan[OF ok2 z2] obtain g3 where
    g3: "checkVals g2 = Returns g3" "lastValsScan g3 = vals g3" "counters_0_or_1 g3" by blast
  have c: "(if (0::nat) mod CHECK_EACH_ITER = 0 then checkVals g2 else Returns g2) = Returns g3"
    using g3(1) by simp
  have "doReads_body 0 rnd g =
      (case (if (0::nat) mod CHECK_EACH_ITER = 0 then checkVals g2 else Returns g2) of
         Exits code g3 \<Rightarrow> Some (Exits code g3)
       | Returns g3 \<Rightarrow> Some (Returns (r1, g3)))"
    unfolding doReads_body_def g2_def g1_def Let_def by (simp add: rs)
  then have b': "doReads_body 0 rnd g = Some (Returns (r1, g3))"
    by (simp only: c outcome.case)
  from r True have "doReads_loop n (0 + 1) r1 g3 = Some out"
    by (subst (asm) doReads_loop.simps) (simp add: b')
  from doReads_loop_quiet_counters[OF g3(2,3) this] show ?thesis .
qed

lemma doReads_loop_first:
  assumes ok: "arrays_ok g" and z: "changedTimes g = replicate VALS_SIZE 0"
    and f: "wasRead g = replicate VALS_SIZE False"
  shows "\<exists>g1. doReads_loop 1 0 rnd g = Some (Returns g1)"
proof -
  have "\<not> wasRead g ! unat (fst (getRandomIndex rnd))"
    using getRandomIndex_bound[of rnd] by (simp add: f)
  then have rs: "resample_while (wasRead g) (snd (getRandomIndex rnd)) (fst (getRandomIndex rnd)) =
      Some (fst (getRandomIndex rnd), snd (getRandomIndex rnd))"
    by (rule resample_while_now)
  then have "\<exists>b. doReads_body 0 rnd g = Some b"
    by (auto simp: doReads_body_def Let_def split: outcome.splits prod.splits)
  then obtain b where b: "doReads_body 0 rnd g = Some b" by blast
  have "\<exists>out. doReads_loop 1 0 rnd g = Some out"
  proof (cases b)
    case (Returns p)
    then show ?thesis using b
      by (subst doReads_loop.simps, simp split: prod.splits, subst doReads_loop.simps, simp)
  next
    case (Exits code g')
    then show ?thesis using b by (subst doReads_loop.simps) simp
  qed
  then obtain out where out: "doReads_loop 1 0 rnd g = Some out" by blast
  from doReads_loop_from_zero[OF ok z out] show ?thesis using out
    by (cases out) (simp_all add: no_anomaly_def)
qed

lemma doWrites_loop_first:
  assumes f: "wasWritten g = replicate VALS_SIZE False"
  shows "\<exists>g1. doWrites_loop 1 0 rnd g = Some g1"
proof -
  have "\<not> wasWritten g ! unat (fst (getRandomIndex rnd))"
    using getRandomIndex_bound[of rnd] by (simp add: f)
  then have "resample_while (wasWritten g) (snd (getRandomIndex rnd)) (fst (getRandomIndex rnd)) =
      Some (fst (getRandomIndex rnd), snd (getRandomIndex rnd))"
    by (rule resample_while_now)
  then have "\<exists>b. doWrites_body rnd g = Some b"
    by (auto simp: doWrites_body_def Let_def split_beta)
  then obtain rnd1 g1 where b: "doWrites_body rnd g = Some (rnd1, g1)" by auto
  have "doWrites_loop 1 0 rnd g = Some g1"
    using b by (subst doWrites_loop.simps, simp, subst doWrites_loop.simps, simp)
  then show ?thesis by blast
qed

lemma prepared_state:
  assumes ok: "arrays_ok g"
    and pr: "doReads_prepare t g = (readRandom, g1)"
    and pw: "doWrites_prepare t g1 = (writeRandom, g2)"
  shows "arrays_ok g2 \<and> lastValsScan g2 = vals g2 \<and> changedTimes g2 = replicate VALS_SIZE 0 \<and>
         wasRead g2 = replicate VALS_SIZE False \<and> wasWritten g2 = replicate VALS_SIZE False"
proof -
  from doReads_prepare_spec[OF ok, of t] pr
  have g1: "arrays_ok g1" "lastValsScan g1 = vals g1" "changedTimes g1 = replicate VALS_SIZE 0"
    "wasRead g1 = replicate VALS_SIZE False" by simp_all
  from doWrites_prepare_spec[OF g1(1), of t] pw g1 show ?thesis by simp
qed

lemma prepared_writer_then_reader_quiet:
  assumes ok: "arrays_ok g" and r: "prepared_writer_then_reader m n t g = Some out"
  shows "no_anomaly out"
proof -
  obtain readRandom g1 where pr: "doReads_prepare t g = (readRandom, g1)"
    by (cases "doReads_prepare t g")
  obtain writeRandom g2 where pw: "doWrites_prepare t g1 = (writeRandom, g2)"
    by (cases "doWrites_prepare t g1")
  note p = prepared_state[OF ok pr pw]
  from r pr pw obtain g3 o1 where w: "doWrites_loop m 0 writeRandom g2 = Some g3"
    and l: "doReads_loop n 0 readRandom (fprintf_stderr Writer_message g3) = Some o1"
    by (auto simp: prepared_writer_then_reader_def split: option.splits)
  from doWrites_loop_card[OF _ _ w] p
  have "arrays_ok (fprintf_stderr Writer_message g3)"
    "changedTimes (fprintf_stderr Writer_message g3) = replicate VALS_SIZE 0"
    by (simp_all add: fprintf_stderr_def arrays_ok_def)
  from doReads_loop_from_zero[OF this l] have a: "no_anomaly o1" .
  show ?thesis
  proof (cases o1)
    case (Returns g4)
    with r pr pw w l have "out = Returns (fprintf_stderr Reader_message g4)"
      by (simp add: prepared_writer_then_reader_def)
    with a Returns show ?thesis
      by (simp add: no_anomaly_def counters_0_or_1_def fprintf_stderr_def)
  next
    case (Exits code g4)
    with a show ?thesis by (simp add: no_anomaly_def)
  qed
qed

lemma prepared_reader_then_writer_quiet:
  assumes ok: "arrays_ok g" and r: "prepared_reader_then_writer n m t g = Some out"
  shows "no_anomaly out"
proof -
  obtain readRandom g1 where pr: "doReads_prepare t g = (readRandom, g1)"
    by (cases "doReads_prepare t g")
  obtain writeRandom g2 where pw: "doWrites_prepare t g1 = (writeRandom, g2)"
    by (cases "doWrites_prepare t g1")
  note p = prepared_state[OF ok pr pw]
  from r pr pw obtain o1 where l: "doReads_loop n 0 readRandom g2 = Some o1"
    by (auto simp: prepared_reader_then_writer_def split: option.splits)
  from p have q: "lastValsScan g2 = vals g2" by simp
  from doReads_loop_quiet[OF q l] p obtain g3 where
    g3: "o1 = Returns g3" "changedTimes g3 = replicate VALS_SIZE 0" by auto
  from doReads_loop_card[OF _ _ l[unfolded g3(1)]] p have ok3: "arrays_ok g3" by simp
  from r pr pw l g3(1) obtain g4 where
    w: "doWrites_loop m 0 writeRandom (fprintf_stderr Reader_message g3) = Some g4"
    and o: "out = Returns (fprintf_stderr Writer_message g4)"
    by (auto simp: prepared_reader_then_writer_def split: option.splits)
  have ok3': "arrays_ok (fprintf_stderr Reader_message g3)"
    using ok3 by (simp add: fprintf_stderr_def arrays_ok_def)
  from doWrites_loop_card[OF ok3' _ w] g3(2)
  have "changedTimes (fprintf_stderr Writer_message g4) = replicate VALS_SIZE 0"
    by (simp add: fprintf_stderr_def)
  then show ?thesis using o by (simp add: no_anomaly_def counters_zero)
qed

text \<open>
  Claim C3. The writer and the reader run one after the other from a trial state whose
  counters are 0 or 1 (as a program start or a finished trial leaves them). Whatever the
  order, and wherever the run has got to (the first \<open>m\<close> passes of the writer's loop, the
  first \<open>n\<close> of the reader's), no call has taken the fatal branch and every counter is 0 or
  1. This holds of the two tasks run whole, and of their second parts run one after the
  other once both have done their first part.
\<close>

theorem sequential_run_never_detects:
  assumes ok: "arrays_ok g" and c: "counters_0_or_1 g"
  shows "(\<forall>g1. doWrites_n m t g = Some g1 \<longrightarrow> counters_0_or_1 g1) \<and>
         (\<forall>out. writer_then_reader m n t g = Some out \<longrightarrow> no_anomaly out) \<and>
         (\<forall>out. doReads_n n t g = Some out \<longrightarrow> no_anomaly out) \<and>
         (\<forall>out. reader_then_writer n m t g = Some out \<longrightarrow> no_anomaly out) \<and>
         (\<forall>out. prepared_writer_then_reader m n t g = Some out \<longrightarrow> no_anomaly out) \<and>
         (\<forall>out. prepared_reader_then_writer n m t g = Some out \<longrightarrow> no_anomaly out)"
proof (intro conjI allI impI)
  fix g1 assume "doWrites_n m t g = Some g1"
  from doWrites_n_Some[OF ok this] c show "counters_0_or_1 g1"
    by (simp add: counters_0_or_1_def)
next
  fix out assume a: "writer_then_reader m n t g = Some out"
  then obtain g1 where w: "doWrites_n m t g = Some g1" and r: "doReads_n n t g1 = Some out"
    by (auto simp: writer_then_reader_def split: option.splits)
  from doWrites_n_Some[OF ok w] have "arrays_ok g1" by simp
  from doReads_n_quiet[OF this r] show "no_anomaly out"
    by (auto simp: no_anomaly_def counters_zero)
next
  fix out assume "doReads_n n t g = Some out"
  from doReads_n_quiet[OF ok this] show "no_anomaly out"
    by (auto simp: no_anomaly_def counters_zero)
next
  fix out assume a: "reader_then_writer n m t g = Some out"
  then obtain o1 where r: "doReads_n n t g = Some o1"
    by (auto simp: reader_then_writer_def split: option.splits)
  from doReads_n_quiet[OF ok r] obtain g1 where
    g1: "o1 = Returns g1" "changedTimes g1 = replicate VALS_SIZE 0" by blast
  from doReads_n_Returns[OF ok r[unfolded g1(1)]] have ok1: "arrays_ok g1" by simp
  from a r g1(1) obtain g2 where w: "doWrites_n m t g1 = Some g2" and o: "out = Returns g2"
    by (auto simp: reader_then_writer_def)
  from doWrites_n_Some[OF ok1 w] g1(2) have "changedTimes g2 = replicate VALS_SIZE 0" by simp
  then show "no_anomaly out" using o by (simp add: no_anomaly_def counters_zero)
next
  fix out assume "prepared_writer_then_reader m n t g = Some out"
  then show "no_anomaly out" by (rule prepared_writer_then_reader_quiet[OF ok])
next
  fix out assume "prepared_reader_then_writer n m t g = Some out"
  then show "no_anomaly out" by (rule prepared_reader_then_writer_quiet[OF ok])
qed

lemma writer_then_reader_first:
  assumes ok: "arrays_ok g"
  shows "\<exists>g2. writer_then_reader 1 1 t g = Some (Returns g2)"
proof -
  obtain g1 where w: "doWrites_n 1 t g = Some g1"
    using doWrites_n_first[OF ok] by blast
  from doWrites_n_Some[OF ok w] have "arrays_ok g1" by simp
  from doReads_n_first[OF this] obtain g2 where "doReads_n 1 t g1 = Some (Returns g2)" by blast
  with w show ?thesis by (simp add: writer_then_reader_def)
qed

lemma reader_then_writer_first:
  assumes ok: "arrays_ok g"
  shows "\<exists>g2. reader_then_writer 1 1 t g = Some (Returns g2)"
proof -
  obtain g1 where r: "doReads_n 1 t g = Some (Returns g1)"
    using doReads_n_first[OF ok] by blast
  from doReads_n_Returns[OF ok r] have "arrays_ok g1" by simp
  from doWrites_n_first[OF this] obtain g2 where "doWrites_n 1 t g1 = Some g2" by blast
  with r show ?thesis by (simp add: reader_then_writer_def)
qed

lemma prepared_writer_then_reader_first:
  assumes ok: "arrays_ok g"
  shows "\<exists>g4. prepared_writer_then_reader 1 1 t g = Some (Returns g4)"
proof -
  obtain readRandom g1 where pr: "doReads_prepare t g = (readRandom, g1)"
    by (cases "doReads_prepare t g")
  obtain writeRandom g2 where pw: "doWrites_prepare t g1 = (writeRandom, g2)"
    by (cases "doWrites_prepare t g1")
  note p = prepared_state[OF ok pr pw]
  from p obtain g3 where w: "doWrites_loop 1 0 writeRandom g2 = Some g3"
    using doWrites_loop_first[of g2 writeRandom] by blast
  from doWrites_loop_card[OF _ _ w] p
  have "arrays_ok (fprintf_stderr Writer_message g3)"
    "changedTimes (fprintf_stderr Writer_message g3) = replicate VALS_SIZE 0"
    "wasRead (fprintf_stderr Writer_message g3) = replicate VALS_SIZE False"
    by (simp_all add: fprintf_stderr_def arrays_ok_def)
  from doReads_loop_first[OF this] obtain g4 where
    "doReads_loop 1 0 readRandom (fprintf_stderr Writer_message g3) = Some (Returns g4)"
    by blast
  with pr pw w show ?thesis by (simp add: prepared_writer_then_reader_def)
qed

lemma prepared_reader_then_writer_first:
  assumes ok: "arrays_ok g"
  shows "\<exists>g4. prepared_reader_then_writer 1 1 t g = Some (Returns g4)"
proof -
  obtain readRandom g1 where pr: "doReads_prepare t g = (readRandom, g1)"
    by (cases "doReads_prepare t g")
  obtain writeRandom g2 where pw: "doWrites_prepare t g1 = (writeRandom, g2)"
    by (cases "doWrites_prepare t g1")
  note p = prepared_state[OF ok pr pw]
  from p obtain g3 where r: "doReads_loop 1 0 readRandom g2 = Some (Returns g3)"
    using doReads_loop_first[of g2 readRandom] by blast
  from doReads_loop_card[OF _ _ r] p
  have "wasWritten (fprintf_stderr Reader_message g3) = replicate VALS_SIZE False"
    by (simp add: fprintf_stderr_def)
  from doWrites_loop_first[OF this] obtain g4 where
    "doWrites_loop 1 0 writeRandom (fprintf_stderr Reader_message g3) = Some g4"
    by blast
  with pr pw r show ?thesis by (simp add: prepared_reader_then_writer_def)
qed

theorem sequential_run_never_detects_witness:
  "arrays_ok initial_globals \<and> counters_0_or_1 initial_globals \<and>
   (\<exists>out. writer_then_reader 1 1 0 initial_globals = Some out \<and> no_anomaly out) \<and>
   (\<exists>out. reader_then_writer 1 1 0 initial_globals = Some out \<and> no_anomaly out) \<and>
   (\<exists>out. prepared_writer_then_reader 1 1 0 initial_globals = Some out \<and> no_anomaly out) \<and>
   (\<exists>out. prepared_reader_then_writer 1 1 0 initial_globals = Some out \<and> no_anomaly out)"
proof -
  have c: "counters_0_or_1 initial_globals"
    by (simp add: counters_0_or_1_def initial_globals_def)
  obtain g2 where wr: "writer_then_reader 1 1 0 initial_globals = Some (Returns g2)"
    using writer_then_reader_first[OF arrays_ok_initial] by blast
  obtain g4 where rw: "reader_then_writer 1 1 0 initial_globals = Some (Returns g4)"
    using reader_then_writer_first[OF arrays_ok_initial] by blast
  obtain g5 where pw: "prepared_writer_then_reader 1 1 0 initial_globals = Some (Returns g5)"
    using prepared_writer_then_reader_first[OF arrays_ok_initial] by blast
  obtain g6 where pr: "prepared_reader_then_writer 1 1 0 initial_globals = Some (Returns g6)"
    using prepared_reader_then_writer_first[OF arrays_ok_initial] by blast
  show ?thesis
    using sequential_run_never_detects [OF arrays_ok_initial c, of 1 0 1] wr rw pw pr c
      arrays_ok_initial
    by simp
qed

end
